theory Spec2Isabelle
  imports Complex_Main
begin

section \<open>JavaScript values\<close>

text \<open>
  The source is TypeScript over three.js buffers. A JavaScript number is an IEEE double.
  The embedding takes a finite double as the real it stands for, and leaves open how the
  operations round: the division, the multiplication, \<^verbatim>\<open>Math.log10\<close>, \<^verbatim>\<open>Math.pow\<close> and
  the printing of an integral number are the fields of a record \<open>arithmetic\<close> that the
  functions take as a parameter, and nothing is assumed of them. What is proved for every
  \<open>arithmetic\<close> holds of the doubles, whatever their rounding.
  A value that the source can find \<^verbatim>\<open>undefined\<close> (an array read out of range) or
  \<^verbatim>\<open>NaN\<close> (arithmetic on \<^verbatim>\<open>undefined\<close>) is an option, with \<open>None\<close> for both.
  Infinite numbers, and a \<^verbatim>\<open>NaN\<close> that an operation makes of two numbers, are outside
  the embedding.
\<close>

record arithmetic =
  num_divide :: "real \<Rightarrow> real \<Rightarrow> real"
  num_times :: "real \<Rightarrow> real \<Rightarrow> real"
  Math_log10 :: "real \<Rightarrow> real"
  Math_pow :: "real \<Rightarrow> real \<Rightarrow> real"
  num_toString :: "int \<Rightarrow> string"

text \<open>\<^verbatim>\<open>xs[k]\<close>: reading past the end of an array gives \<^verbatim>\<open>undefined\<close>.\<close>

definition array_get :: "'a list \<Rightarrow> nat \<Rightarrow> 'a option" where
  "array_get xs k = (if k < length xs then Some (xs ! k) else None)"

text \<open>
  \<^verbatim>\<open>Math.round\<close> gives the nearest integer, a half towards plus infinity; its result
  is exact on doubles.
\<close>

definition Math_round :: "real \<Rightarrow> int" where
  "Math_round x = \<lfloor>x + 1 / 2\<rfloor>"

text \<open>
  The decimal string of an integer, with a minus sign when negative. It is how JavaScript
  prints an array index, and an integral number below \<open>10^21\<close> in absolute value.
\<close>

definition digit :: "nat \<Rightarrow> char" where
  "digit d = ''0123456789'' ! d"

function nat_toString :: "nat \<Rightarrow> string" where
  "nat_toString n = (if n < 10 then [digit n] else nat_toString (n div 10) @ [digit (n mod 10)])"
  by pat_completeness auto
termination
  by (relation "measure id") auto

declare nat_toString.simps [simp del]

definition int_toString :: "int \<Rightarrow> string" where
  "int_toString n = (if n < 0 then CHR ''-'' # nat_toString (nat (- n)) else nat_toString (nat n))"

text \<open>
  A rounded number in a template literal: \<^verbatim>\<open>NaN\<close> prints as \<^verbatim>\<open>NaN\<close>, an integer as
  the arithmetic prints it.
\<close>

definition number_toString :: "arithmetic \<Rightarrow> int option \<Rightarrow> string" where
  "number_toString ops v = (case v of None \<Rightarrow> ''NaN'' | Some n \<Rightarrow> num_toString ops n)"

text \<open>An index in a string concatenation: \<^verbatim>\<open>undefined\<close> prints as \<^verbatim>\<open>undefined\<close>.\<close>

definition index_toString :: "nat option \<Rightarrow> string" where
  "index_toString v = (case v of None \<Rightarrow> ''undefined'' | Some n \<Rightarrow> nat_toString n)"

section \<open>Geometry buffers\<close>

text \<open>
  A three.js \<^verbatim>\<open>BufferAttribute\<close>: the flat \<^verbatim>\<open>array\<close>, the \<^verbatim>\<open>itemSize\<close> and the
  \<^verbatim>\<open>count\<close> of items. A \<^verbatim>\<open>BufferGeometry\<close> has the attribute \<^verbatim>\<open>position\<close> or not
  (\<^verbatim>\<open>hasAttribute\<close>), and an index buffer or \<^verbatim>\<open>null\<close> (\<^verbatim>\<open>getIndex\<close>).
\<close>

record 'a BufferAttribute =
  array :: "'a list"
  itemSize :: nat
  count :: nat

record BufferGeometry =
  position :: "real BufferAttribute option"
  index :: "nat BufferAttribute option"

section \<open>Vertex merging: \<^verbatim>\<open>computeVerticesIndexArray\<close>\<close>

definition decimalShift :: "arithmetic \<Rightarrow> real \<Rightarrow> real" where
  "decimalShift ops tolerance = Math_log10 ops (num_divide ops 1 tolerance)"

definition shiftMultiplier :: "arithmetic \<Rightarrow> real \<Rightarrow> real" where
  "shiftMultiplier ops tolerance = Math_pow ops 10 (decimalShift ops tolerance)"

text \<open>
  One component of a position, scaled and rounded:
  \<^verbatim>\<open>Math.round(positions.array[i*3+j] * shiftMultiplier)\<close>.
\<close>

definition quantized :: "arithmetic \<Rightarrow> real list \<Rightarrow> real \<Rightarrow> nat \<Rightarrow> nat \<Rightarrow> int option" where
  "quantized ops arr m i j =
     map_option (\<lambda>x. Math_round (num_times ops x m)) (array_get arr (i * 3 + j))"

text \<open>
  The inner loop over \<open>j = 0, 1, 2\<close>: each rounded component is appended to the hash
  as a string, with nothing between the components.
\<close>

definition vertexHash :: "arithmetic \<Rightarrow> real list \<Rightarrow> real \<Rightarrow> nat \<Rightarrow> string" where
  "vertexHash ops arr m i =
     foldl (\<lambda>hash j. hash @ number_toString ops (quantized ops arr m i j)) [] [0, 1, 2]"

text \<open>
  The body of the loop over \<open>i\<close>: the state is the hash map and the index array built
  so far.
\<close>

definition mergeStep ::
  "arithmetic \<Rightarrow> real list \<Rightarrow> real \<Rightarrow> (string \<rightharpoonup> nat) \<times> nat list \<Rightarrow> nat \<Rightarrow>
   (string \<rightharpoonup> nat) \<times> nat list"
where
  "mergeStep ops arr m st i =
     (let hash = vertexHash ops arr m i in
      case fst st hash of
        None \<Rightarrow> ((fst st)(hash \<mapsto> i), snd st @ [i])
      | Some vertexIndex \<Rightarrow> (fst st, snd st @ [vertexIndex]))"

definition computeVerticesIndexArray ::
  "arithmetic \<Rightarrow> real BufferAttribute \<Rightarrow> real \<Rightarrow> nat list"
where
  "computeVerticesIndexArray ops positions tolerance =
     snd (foldl (mergeStep ops (array positions) (shiftMultiplier ops tolerance))
            (Map.empty, []) [0..<count positions])"

text \<open>
  The three quantized components of position \<open>i\<close>, the grid cell the position falls in.
\<close>

definition gridCell :: "arithmetic \<Rightarrow> real BufferAttribute \<Rightarrow> real \<Rightarrow> nat \<Rightarrow> int option list" where
  "gridCell ops positions tolerance i =
     map (quantized ops (array positions) (shiftMultiplier ops tolerance) i) [0, 1, 2]"

text \<open>
  The multiplier as the specification words it, \<open>10^ceil(log10(1/\<epsilon>))\<close>, to compare with
  \<open>shiftMultiplier\<close>.
\<close>

definition specMultiplier :: "arithmetic \<Rightarrow> real \<Rightarrow> real" where
  "specMultiplier ops tolerance =
     Math_pow ops 10 (of_int \<lceil>Math_log10 ops (num_divide ops 1 tolerance)\<rceil>)"

text \<open>
  The loop invariant of \<open>computeVerticesIndexArray\<close>, for a hash function \<open>H\<close> of
  the index: after the indices below \<open>n\<close>, the map sends each hash seen to the first
  index that has it, and the array holds, for each index, the first index with the same
  hash.
\<close>

definition merge_inv :: "(nat \<Rightarrow> string) \<Rightarrow> nat \<Rightarrow> (string \<rightharpoonup> nat) \<times> nat list \<Rightarrow> bool" where
  "merge_inv H n st \<longleftrightarrow>
     length (snd st) = n \<and>
     (\<forall>h. fst st h = (if \<exists>k<n. H k = h then Some (LEAST k. H k = h) else None)) \<and>
     (\<forall>i<n. snd st ! i = (LEAST k. H k = H i))"

section \<open>The halfedge structure\<close>

text \<open>
  The store holds its vertices, halfedges and faces in three JavaScript sets, which keep
  the order of insertion. In the embedding each collection is the list of the entities'
  records in that order, and a reference to an entity is its place in the list; an
  absent reference (\<^verbatim>\<open>undefined\<close>) is \<open>None\<close>.
\<close>

type_synonym vertex_ref = nat
type_synonym halfedge_ref = nat
type_synonym face_ref = nat

record Vertex =
  vertex_id :: "nat option"
  vertex_position :: "real option \<times> real option \<times> real option"
  vertex_halfedge :: "halfedge_ref option"

record Halfedge =
  he_vertex :: vertex_ref
  he_twin :: halfedge_ref
  he_next :: "halfedge_ref option"
  he_prev :: "halfedge_ref option"
  he_face :: "face_ref option"

record Face =
  face_id :: "nat option"
  face_halfedge :: "halfedge_ref option"

record HalfedgeDS =
  faces :: "Face list"
  vertices :: "Vertex list"
  halfedges :: "Halfedge list"
  options_tolerance :: real

text \<open>A thrown JavaScript error: the name of its class and its message.\<close>

datatype error = Thrown (error_name: string) (error_message: string)

definition clear :: "HalfedgeDS \<Rightarrow> HalfedgeDS" where
  "clear this = this\<lparr>faces := [], vertices := [], halfedges := []\<rparr>"

subsection \<open>The primitive operations\<close>

text \<open>
  Modelled from the spec: \<^verbatim>\<open>addVertex\<close> (operations/addVertex) is not among the sources.
  It creates and stores a new vertex with the given position and no outgoing halfedge,
  and returns it.
\<close>

definition addVertex ::
  "HalfedgeDS \<Rightarrow> real option \<times> real option \<times> real option \<Rightarrow> HalfedgeDS \<times> vertex_ref"
where
  "addVertex struct pos =
     (struct\<lparr>vertices := vertices struct @
        [\<lparr>vertex_id = None, vertex_position = pos, vertex_halfedge = None\<rparr>]\<rparr>,
      length (vertices struct))"

text \<open>
  Modelled from the spec: \<^verbatim>\<open>addEdge\<close> (operations/addEdge) is not among the sources.
  It creates a twin pair of halfedges, \<open>h1\<close> with origin \<open>v1\<close> and \<open>h2\<close> with origin
  \<open>v2\<close>, each the twin of the other, gives each vertex its outgoing halfedge if it has
  none, and returns \<open>h1\<close>. It sets no \<^verbatim>\<open>next\<close>, \<^verbatim>\<open>prev\<close> or \<^verbatim>\<open>face\<close>.
\<close>

definition setOutgoing :: "Vertex list \<Rightarrow> vertex_ref \<Rightarrow> halfedge_ref \<Rightarrow> Vertex list" where
  "setOutgoing vs v h =
     (case array_get vs v of
        None \<Rightarrow> vs
      | Some x \<Rightarrow>
          (case vertex_halfedge x of
             None \<Rightarrow> vs[v := x\<lparr>vertex_halfedge := Some h\<rparr>]
           | Some _ \<Rightarrow> vs))"

definition addEdge :: "HalfedgeDS \<Rightarrow> vertex_ref \<Rightarrow> vertex_ref \<Rightarrow> HalfedgeDS \<times> halfedge_ref" where
  "addEdge struct v1 v2 =
     (let h1 = length (halfedges struct);
          h2 = Suc h1
      in (struct\<lparr>
            halfedges := halfedges struct @
              [\<lparr>he_vertex = v1, he_twin = h2, he_next = None, he_prev = None, he_face = None\<rparr>,
               \<lparr>he_vertex = v2, he_twin = h1, he_next = None, he_prev = None, he_face = None\<rparr>],
            vertices := setOutgoing (setOutgoing (vertices struct) v1 h1) v2 h2\<rparr>,
          h1))"

text \<open>
  Modelled from the spec: \<^verbatim>\<open>addFace\<close> (operations/addFace) is not among the sources.
  It fails, with the specification's \<^verbatim>\<open>NonManifoldConstructionError\<close>, if a halfedge of
  the loop already has a face. Otherwise it creates a face, and for each side sets the
  halfedge's \<^verbatim>\<open>next\<close> to the following halfedge of the cycle, that one's \<^verbatim>\<open>prev\<close> to
  the halfedge, and the halfedge's \<^verbatim>\<open>face\<close> to the new face.
\<close>

definition hasFace :: "Halfedge list \<Rightarrow> halfedge_ref \<Rightarrow> bool" where
  "hasFace hs h = (case array_get hs h of None \<Rightarrow> False | Some x \<Rightarrow> he_face x \<noteq> None)"

definition wireSide :: "halfedge_ref list \<Rightarrow> face_ref \<Rightarrow> Halfedge list \<Rightarrow> nat \<Rightarrow> Halfedge list" where
  "wireSide loopHalfedges f hs i =
     (let current = loopHalfedges ! i;
          nxt = loopHalfedges ! (Suc i mod length loopHalfedges);
          hs1 = hs[current := (hs ! current)\<lparr>he_next := Some nxt, he_face := Some f\<rparr>]
      in hs1[nxt := (hs1 ! nxt)\<lparr>he_prev := Some current\<rparr>])"

definition addFace :: "HalfedgeDS \<Rightarrow> halfedge_ref list \<Rightarrow> error + HalfedgeDS \<times> face_ref" where
  "addFace struct loopHalfedges =
     (if \<exists>h \<in> set loopHalfedges. hasFace (halfedges struct) h
      then Inl (Thrown ''NonManifoldConstructionError'' ''halfedge already bound to a face'')
      else
        let f = length (faces struct)
        in Inr (struct\<lparr>
                  faces := faces struct @
                    [\<lparr>face_id = None, face_halfedge = array_get loopHalfedges 0\<rparr>],
                  halfedges := foldl (wireSide loopHalfedges f) (halfedges struct)
                    [0..<length loopHalfedges]\<rparr>,
                f))"

subsection \<open>\<^verbatim>\<open>HalfedgeDS.buildFromGeometry\<close>\<close>

text \<open>
  \<^verbatim>\<open>getVertexIndex(bufferIndex)\<close>: without an index buffer
  \<^verbatim>\<open>indexVertexArray[bufferIndex]\<close>, with one
  \<^verbatim>\<open>indexVertexArray[indexBuffer.array[bufferIndex]]\<close>. A read out of range gives
  \<^verbatim>\<open>undefined\<close>, and so does indexing with \<^verbatim>\<open>undefined\<close>.
\<close>

definition getVertexIndex :: "nat list \<Rightarrow> nat BufferAttribute option \<Rightarrow> nat \<Rightarrow> nat option" where
  "getVertexIndex indexVertexArray indexBuffer bufferIndex =
     (case indexBuffer of
        None \<Rightarrow> array_get indexVertexArray bufferIndex
      | Some ib \<Rightarrow>
          (case array_get (array ib) bufferIndex of
             None \<Rightarrow> None
           | Some k \<Rightarrow> array_get indexVertexArray k))"

text \<open>
  three.js \<^verbatim>\<open>Vector3.fromBufferAttribute(attribute, index)\<close> reads
  \<^verbatim>\<open>attribute.array[index * itemSize + 0, 1, 2]\<close>.
\<close>

definition fromBufferAttribute ::
  "real BufferAttribute \<Rightarrow> nat option \<Rightarrow> real option \<times> real option \<times> real option"
where
  "fromBufferAttribute attribute idx =
     (case idx of
        None \<Rightarrow> (None, None, None)
      | Some i \<Rightarrow>
          (array_get (array attribute) (i * itemSize attribute),
           array_get (array attribute) (i * itemSize attribute + 1),
           array_get (array attribute) (i * itemSize attribute + 2)))"

text \<open>
  The state of a build: the store, the two maps local to the call, and the halfedges
  collected for the face in progress. The source keeps one array \<^verbatim>\<open>loopHalfedges\<close> of
  three entries and overwrites entry \<open>i\<close> at side \<open>i\<close>; the embedding starts each face
  with the empty list and appends.
\<close>

record build_state =
  ds :: HalfedgeDS
  halfedgeMap :: "string \<rightharpoonup> halfedge_ref"
  vertexMap :: "nat option \<rightharpoonup> vertex_ref"
  loopHalfedges :: "halfedge_ref list"

text \<open>
  The vertex of a canonical index, created at its first use (the source has this block
  twice, for \<open>v1\<close> and for \<open>v2\<close>).
\<close>

definition getVertex :: "real BufferAttribute \<Rightarrow> nat option \<Rightarrow> build_state \<Rightarrow> vertex_ref \<times> build_state" where
  "getVertex positions i1 st =
     (case vertexMap st i1 of
        Some v1 \<Rightarrow> (v1, st)
      | None \<Rightarrow>
          (let (struct, v1) = addVertex (ds st) (fromBufferAttribute positions i1);
               struct' = struct\<lparr>vertices := (vertices struct)
                 [v1 := (vertices struct ! v1)\<lparr>vertex_id := i1\<rparr>]\<rparr>
           in (v1, st\<lparr>ds := struct', vertexMap := (vertexMap st)(i1 \<mapsto> v1)\<rparr>)))"

text \<open>The key of the halfedge map: \<^verbatim>\<open>i1+'-'+i2\<close>.\<close>

definition edgeHash :: "nat option \<Rightarrow> nat option \<Rightarrow> string" where
  "edgeHash i1 i2 = index_toString i1 @ ''-'' @ index_toString i2"

text \<open>The body of the loop over the three sides \<open>i\<close> of a face.\<close>

definition buildSide ::
  "real BufferAttribute \<Rightarrow> (nat \<Rightarrow> nat option) \<Rightarrow> nat \<Rightarrow> build_state \<Rightarrow> nat \<Rightarrow> build_state"
where
  "buildSide positions getIndex faceIndex st i =
     (let i1 = getIndex (faceIndex * 3 + i);
          (v1, st1) = getVertex positions i1 st;
          i2 = getIndex (faceIndex * 3 + (i + 1) mod 3);
          (v2, st2) = getVertex positions i2 st1;
          hash1 = edgeHash i1 i2
      in case halfedgeMap st2 hash1 of
           Some h1 \<Rightarrow> st2\<lparr>loopHalfedges := loopHalfedges st2 @ [h1]\<rparr>
         | None \<Rightarrow>
             (let (struct, h1) = addEdge (ds st2) v1 v2;
                  h2 = he_twin (halfedges struct ! h1);
                  hash2 = edgeHash i2 i1
              in st2\<lparr>ds := struct,
                     halfedgeMap := (halfedgeMap st2)(hash1 \<mapsto> h1, hash2 \<mapsto> h2),
                     loopHalfedges := loopHalfedges st2 @ [h1]\<rparr>))"

text \<open>
  The body of the loop over the faces: the three sides, then \<^verbatim>\<open>addFace\<close> and the
  face's identifier. When \<^verbatim>\<open>addFace\<close> throws, the state is the one reached so far.
\<close>

definition buildFace ::
  "real BufferAttribute \<Rightarrow> (nat \<Rightarrow> nat option) \<Rightarrow> build_state \<Rightarrow> nat \<Rightarrow> error option \<times> build_state"
where
  "buildFace positions getIndex st faceIndex =
     (let st' = foldl (buildSide positions getIndex faceIndex) (st\<lparr>loopHalfedges := []\<rparr>) [0, 1, 2]
      in case addFace (ds st') (loopHalfedges st') of
           Inl e \<Rightarrow> (Some e, st')
         | Inr (struct, f) \<Rightarrow>
             (None, st'\<lparr>ds := struct\<lparr>faces := (faces struct)
                [f := (faces struct ! f)\<lparr>face_id := Some faceIndex\<rparr>]\<rparr>\<rparr>))"

text \<open>
  \<^verbatim>\<open>for (let faceIndex = 0; faceIndex < nbOfFaces; faceIndex++)\<close>, where \<^verbatim>\<open>nbOfFaces\<close>
  is the quotient \<^verbatim>\<open>count/3\<close>, not rounded.
\<close>

function buildFaces ::
  "real BufferAttribute \<Rightarrow> (nat \<Rightarrow> nat option) \<Rightarrow> rat \<Rightarrow> nat \<Rightarrow> build_state \<Rightarrow> error option \<times> build_state"
where
  "buildFaces positions getIndex nbOfFaces faceIndex st =
     (if of_nat faceIndex < nbOfFaces then
        (case buildFace positions getIndex st faceIndex of
           (Some e, st') \<Rightarrow> (Some e, st')
         | (None, st') \<Rightarrow> buildFaces positions getIndex nbOfFaces (Suc faceIndex) st')
      else (None, st))"
  by pat_completeness auto
termination
proof (relation "measure (\<lambda>(positions, getIndex, nbOfFaces, faceIndex, st). nat \<lceil>nbOfFaces\<rceil> - faceIndex)")
  show "wf (measure (\<lambda>(positions, getIndex, nbOfFaces, faceIndex, st). nat \<lceil>nbOfFaces\<rceil> - faceIndex))"
    by simp
next
  fix positions :: "real BufferAttribute" and getIndex :: "nat \<Rightarrow> nat option"
    and nbOfFaces :: rat and faceIndex :: nat and st x :: build_state
    and y :: "error option" and z :: build_state
  assume "of_nat faceIndex < nbOfFaces"
  then have "of_nat faceIndex < (of_int \<lceil>nbOfFaces\<rceil> :: rat)"
    using le_of_int_ceiling [of nbOfFaces] by linarith
  then have "int faceIndex < \<lceil>nbOfFaces\<rceil>"
    by (metis of_int_less_iff of_int_of_nat_eq)
  then show "((positions, getIndex, nbOfFaces, Suc faceIndex, z), (positions, getIndex, nbOfFaces, faceIndex, st))
      \<in> measure (\<lambda>(positions, getIndex, nbOfFaces, faceIndex, st). nat \<lceil>nbOfFaces\<rceil> - faceIndex)"
    by simp
qed

declare buildFaces.simps [simp del]

text \<open>
  \<^verbatim>\<open>nbOfFaces\<close>: \<^verbatim>\<open>positions.count/3\<close>, or \<^verbatim>\<open>indexBuffer.count/3\<close> when the geometry
  is indexed.
\<close>

definition nbOfFaces :: "real BufferAttribute \<Rightarrow> nat BufferAttribute option \<Rightarrow> rat" where
  "nbOfFaces positions indexBuffer =
     (case indexBuffer of
        None \<Rightarrow> of_nat (count positions) / 3
      | Some ib \<Rightarrow> of_nat (count ib) / 3)"

definition buildFromGeometry ::
  "arithmetic \<Rightarrow> HalfedgeDS \<Rightarrow> BufferGeometry \<Rightarrow> error option \<times> HalfedgeDS"
where
  "buildFromGeometry ops this geometry =
     (let this0 = clear this
      in case position geometry of
           None \<Rightarrow>
             (Some (Thrown ''Error'' ''BufferGeometry does not have a position BufferAttribute.''),
              this0)
         | Some positions \<Rightarrow>
             (let indexVertexArray = computeVerticesIndexArray ops positions (options_tolerance this0);
                  (err, st) = buildFaces positions (getVertexIndex indexVertexArray (index geometry))
                    (nbOfFaces positions (index geometry)) 0
                    \<lparr>ds = this0, halfedgeMap = Map.empty, vertexMap = Map.empty, loopHalfedges = []\<rparr>
              in (err, ds st)))"

subsection \<open>\<^verbatim>\<open>HalfedgeDS.loops\<close>\<close>

text \<open>The \<^verbatim>\<open>next\<close> of a halfedge reference, if the halfedge has one.\<close>

definition nextOf :: "Halfedge list \<Rightarrow> halfedge_ref \<Rightarrow> halfedge_ref option" where
  "nextOf hs h = (case array_get hs h of None \<Rightarrow> None | Some x \<Rightarrow> he_next x)"

text \<open>
  Modelled from the spec: \<^verbatim>\<open>Halfedge.nextLoop\<close> is not among the sources. It yields the
  start, then follows \<^verbatim>\<open>next\<close> until the start is reached again. It does not return when
  \<^verbatim>\<open>next\<close> never leads back to the start (the result \<open>None\<close>), and following an absent
  \<^verbatim>\<open>next\<close> is a \<^verbatim>\<open>TypeError\<close>.
\<close>

partial_function (option) nextLoop_from ::
  "Halfedge list \<Rightarrow> halfedge_ref \<Rightarrow> halfedge_ref \<Rightarrow> halfedge_ref list \<Rightarrow> (error + halfedge_ref list) option"
where
  "nextLoop_from hs start current yielded =
     (case nextOf hs current of
        None \<Rightarrow> Some (Inl (Thrown ''TypeError'' ''Cannot read properties of undefined''))
      | Some n \<Rightarrow>
          if n = start then Some (Inr (yielded @ [current]))
          else nextLoop_from hs start n (yielded @ [current]))"

declare nextLoop_from.simps [code]

definition nextLoop :: "Halfedge list \<Rightarrow> halfedge_ref \<Rightarrow> (error + halfedge_ref list) option" where
  "nextLoop hs start = nextLoop_from hs start start []"

text \<open>
  \<^verbatim>\<open>loops()\<close>: the loop over the halfedges of the store in insertion order, with the set
  \<^verbatim>\<open>handled\<close> and the array \<^verbatim>\<open>loops\<close>.
\<close>

fun loops_from ::
  "Halfedge list \<Rightarrow> halfedge_ref list \<Rightarrow> halfedge_ref set \<Rightarrow> halfedge_ref list \<Rightarrow>
   (error + halfedge_ref list) option"
where
  "loops_from hs [] handled loops = Some (Inr loops)"
| "loops_from hs (halfedge # rest) handled loops =
     (if halfedge \<in> handled then loops_from hs rest handled loops
      else
        (case nextLoop hs halfedge of
           None \<Rightarrow> None
         | Some (Inl e) \<Rightarrow> Some (Inl e)
         | Some (Inr hes) \<Rightarrow> loops_from hs rest (handled \<union> set hes) (loops @ [halfedge])))"

definition loops :: "HalfedgeDS \<Rightarrow> (error + halfedge_ref list) option" where
  "loops this = loops_from (halfedges this) [0..<length (halfedges this)] {} []"

text \<open>Following \<^verbatim>\<open>next\<close> \<open>k\<close> times from a halfedge.\<close>

fun iterNext :: "Halfedge list \<Rightarrow> nat \<Rightarrow> halfedge_ref \<Rightarrow> halfedge_ref option" where
  "iterNext hs 0 h = Some h"
| "iterNext hs (Suc k) h = (case nextOf hs h of None \<Rightarrow> None | Some n \<Rightarrow> iterNext hs k n)"

section \<open>Well-formed buffers\<close>

text \<open>
  A position attribute whose array holds \<open>count\<close> items of at least three numbers each
  (three.js computes \<^verbatim>\<open>count\<close> as \<^verbatim>\<open>array.length / itemSize\<close>); an index buffer whose
  array holds \<open>count\<close> entries, each the index of a position.
\<close>

definition wellFormedPositions :: "real BufferAttribute \<Rightarrow> bool" where
  "wellFormedPositions positions \<longleftrightarrow>
     3 \<le> itemSize positions \<and>
     length (array positions) = itemSize positions * count positions"

definition wellFormedIndex :: "real BufferAttribute \<Rightarrow> nat BufferAttribute option \<Rightarrow> bool" where
  "wellFormedIndex positions indexBuffer \<longleftrightarrow>
     (case indexBuffer of
        None \<Rightarrow> True
      | Some ib \<Rightarrow> length (array ib) = count ib \<and> (\<forall>k \<in> set (array ib). k < count positions))"

text \<open>The number of buffer entries the faces are read from.\<close>

definition bufferCount :: "real BufferAttribute \<Rightarrow> nat BufferAttribute option \<Rightarrow> nat" where
  "bufferCount positions indexBuffer =
     (case indexBuffer of None \<Rightarrow> count positions | Some ib \<Rightarrow> count ib)"

text \<open>
  A read out of range gives \<^verbatim>\<open>undefined\<close>, and the build stores what it reads: the
  canonical index read by \<^verbatim>\<open>getVertexIndex\<close> is the key of the vertex map and the
  \<^verbatim>\<open>id\<close> of the vertex made for it, and the three numbers read by
  \<^verbatim>\<open>fromBufferAttribute\<close> are its position. A vertex is defined when none of them is
  \<^verbatim>\<open>undefined\<close>.
\<close>

definition definedVertex :: "Vertex \<Rightarrow> bool" where
  "definedVertex v \<longleftrightarrow>
     vertex_id v \<noteq> None \<and>
     (case vertex_position v of (x, y, z) \<Rightarrow> x \<noteq> None \<and> y \<noteq> None \<and> z \<noteq> None)"

text \<open>
  The vertex that the vertex map has for the index \<^verbatim>\<open>undefined\<close>, if it has one, is a
  vertex of the store whose \<^verbatim>\<open>id\<close> is \<^verbatim>\<open>undefined\<close>.
\<close>

definition undefinedKept :: "build_state \<Rightarrow> bool" where
  "undefinedKept st \<longleftrightarrow>
     (case vertexMap st None of
        None \<Rightarrow> True
      | Some v \<Rightarrow> v < length (vertices (ds st)) \<and> vertex_id (vertices (ds st) ! v) = None)"

section \<open>An invariant of the build\<close>

text \<open>
  While the store has no face, no halfedge of it has a face; and the vertex map of the
  build holds vertices of the store only.
\<close>

definition build_inv :: "build_state \<Rightarrow> bool" where
  "build_inv st \<longleftrightarrow>
     (faces (ds st) = [] \<longrightarrow> (\<forall>x \<in> set (halfedges (ds st)). he_face x = None)) \<and>
     (\<forall>i v. vertexMap st i = Some v \<longrightarrow> v < length (vertices (ds st)))"

section \<open>Example inputs\<close>

text \<open>
  The store with nothing in it and tolerance \<open>1\<close>, the state a build starts from, and
  the positions of one triangle, of the same triangle twice and of four points.
\<close>

text \<open>
  The operations carried out exactly, and integers printed in decimal. The examples are
  evaluated with them. Their tolerance is \<open>1\<close>, where the operations on doubles are
  exact as well (\<open>1/1\<close> is \<open>1\<close>, \<^verbatim>\<open>Math.log10(1)\<close> is \<open>0\<close>, \<^verbatim>\<open>Math.pow(10, 0)\<close> is
  \<open>1\<close>, and a product by \<open>1\<close> is the other factor), but for one example of tolerance
  \<open>1/2\<close>, where the doubles give the multiplier \<open>2\<close> as the exact operations do.
\<close>

definition exactArithmetic :: arithmetic where
  "exactArithmetic =
     \<lparr>num_divide = divide, num_times = times, Math_log10 = log 10, Math_pow = (powr),
      num_toString = int_toString\<rparr>"

definition emptyStore :: HalfedgeDS where
  "emptyStore = \<lparr>faces = [], vertices = [], halfedges = [], options_tolerance = 1\<rparr>"


definition trianglePositions :: "real BufferAttribute" where
  "trianglePositions = \<lparr>array = [0, 0, 0, 1, 0, 0, 0, 1, 0], itemSize = 3, count = 3\<rparr>"

definition doubledTrianglePositions :: "real BufferAttribute" where
  "doubledTrianglePositions =
     \<lparr>array = [0, 0, 0, 1, 0, 0, 0, 1, 0, 0, 0, 0, 1, 0, 0, 0, 1, 0], itemSize = 3, count = 6\<rparr>"

definition fourPositions :: "real BufferAttribute" where
  "fourPositions = \<lparr>array = [0, 0, 0, 1, 0, 0, 0, 1, 0, 1, 1, 0], itemSize = 3, count = 4\<rparr>"

text \<open>
  Three positions of two numbers each, and an index buffer of three entries whose last
  is the index of no position of a triangle.
\<close>

definition flatPositions :: "real BufferAttribute" where
  "flatPositions = \<lparr>array = [0, 0, 1, 0, 0, 1], itemSize = 2, count = 3\<rparr>"

definition strayIndex :: "nat BufferAttribute" where
  "strayIndex = \<lparr>array = [0, 1, 5], itemSize = 1, count = 3\<rparr>"

section \<open>Loops and orbits\<close>

text \<open>
  Loop closure: following \<^verbatim>\<open>next\<close> from the halfedge leads back to it after some
  positive number of steps.
\<close>

definition closed :: "Halfedge list \<Rightarrow> halfedge_ref \<Rightarrow> bool" where
  "closed hs h \<longleftrightarrow> (\<exists>k>0. iterNext hs k h = Some h)"

text \<open>The loop-closure invariant of a store: every halfedge of it is closed.\<close>

definition loopClosure :: "Halfedge list \<Rightarrow> bool" where
  "loopClosure hs \<longleftrightarrow> (\<forall>h<length hs. closed hs h)"

text \<open>Halfedge \<open>h\<close> is among those that \<^verbatim>\<open>r.nextLoop()\<close> yields.\<close>

definition inNextLoop :: "Halfedge list \<Rightarrow> halfedge_ref \<Rightarrow> halfedge_ref \<Rightarrow> bool" where
  "inNextLoop hs r h \<longleftrightarrow> (\<exists>cyc. nextLoop hs r = Some (Inr cyc) \<and> h \<in> set cyc)"

text \<open>The halfedges reached from \<open>h\<close> by following \<^verbatim>\<open>next\<close>.\<close>

definition orbit :: "Halfedge list \<Rightarrow> halfedge_ref \<Rightarrow> halfedge_ref set" where
  "orbit hs h = {x. \<exists>k. iterNext hs k h = Some x}"

text \<open>Representatives that are distinct and lie in one another's orbits nowhere.\<close>

definition apart :: "Halfedge list \<Rightarrow> halfedge_ref list \<Rightarrow> bool" where
  "apart hs rs \<longleftrightarrow> distinct rs \<and> (\<forall>r \<in> set rs. \<forall>r' \<in> set rs. r \<noteq> r' \<longrightarrow> r' \<notin> orbit hs r)"

text \<open>
  Three halfedges: \<open>0\<close> and \<open>1\<close> are each the \<^verbatim>\<open>next\<close> of the other, and \<open>2\<close> is its
  own.
\<close>

definition threeHalfedges :: "Halfedge list" where
  "threeHalfedges =
     [\<lparr>he_vertex = 0, he_twin = 1, he_next = Some 1, he_prev = Some 1, he_face = None\<rparr>,
      \<lparr>he_vertex = 1, he_twin = 0, he_next = Some 0, he_prev = Some 0, he_face = None\<rparr>,
      \<lparr>he_vertex = 0, he_twin = 2, he_next = Some 2, he_prev = Some 2, he_face = None\<rparr>]"

section \<open>Properties of the vertex merger\<close>

lemma vertexHash_concat:
  "vertexHash ops arr m i = concat (map (\<lambda>j. number_toString ops (quantized ops arr m i j)) [0, 1, 2])"
  by (simp add: vertexHash_def)

lemma exactArithmetic_simps:
  "num_divide exactArithmetic = divide"
  "num_times exactArithmetic = times"
  "Math_log10 exactArithmetic = log 10"
  "Math_pow exactArithmetic = (powr)"
  "num_toString exactArithmetic = int_toString"
  by (simp_all add: exactArithmetic_def)

lemma shiftMultiplier_exact:
  "0 < tolerance \<Longrightarrow> shiftMultiplier exactArithmetic tolerance = 1 / tolerance"
  by (simp add: shiftMultiplier_def decimalShift_def exactArithmetic_simps)

lemma shiftMultiplier_one: "shiftMultiplier exactArithmetic 1 = 1"
  by (simp add: shiftMultiplier_def decimalShift_def exactArithmetic_simps)

text \<open>
  The merge loop uses the multiplication and the printing only, so that with exact
  operations it can be evaluated.
\<close>

lemma mergeStep_exact:
  "mergeStep exactArithmetic arr m =
   mergeStep \<lparr>num_divide = divide, num_times = times, Math_log10 = (\<lambda>x. x),
     Math_pow = (\<lambda>x y. x), num_toString = int_toString\<rparr> arr m"
  by (simp add: fun_eq_iff mergeStep_def vertexHash_def quantized_def number_toString_def
      exactArithmetic_simps cong: option.case_cong)

lemma merge_inv_step:
  assumes "merge_inv (vertexHash ops arr m) n st"
  shows "merge_inv (vertexHash ops arr m) (Suc n) (mergeStep ops arr m st n)"
proof -
  let ?H = "vertexHash ops arr m"
  from assms have len: "length (snd st) = n"
    and hm: "\<And>h. fst st h = (if \<exists>k<n. ?H k = h then Some (LEAST k. ?H k = h) else None)"
    and ia: "\<And>i. i < n \<Longrightarrow> snd st ! i = (LEAST k. ?H k = ?H i)"
    by (auto simp: merge_inv_def)
  show ?thesis
  proof (cases "\<exists>k<n. ?H k = ?H n")
    case True
    then have look: "fst st (?H n) = Some (LEAST k. ?H k = ?H n)"
      by (simp add: hm)
    have ex: "(\<exists>k<Suc n. ?H k = h) \<longleftrightarrow> (\<exists>k<n. ?H k = h)" for h
      using True less_Suc_eq by auto
    have step: "mergeStep ops arr m st n = (fst st, snd st @ [LEAST k. ?H k = ?H n])"
      by (simp add: mergeStep_def look)
    have 1: "length (snd (mergeStep ops arr m st n)) = Suc n"
      by (simp add: step len)
    have 2: "fst (mergeStep ops arr m st n) h =
        (if \<exists>k<Suc n. ?H k = h then Some (LEAST k. ?H k = h) else None)" for h
      unfolding ex by (simp add: step hm)
    have 3: "snd (mergeStep ops arr m st n) ! i = (LEAST k. ?H k = ?H i)" if "i < Suc n" for i
      using that len ia by (cases "i = n") (simp_all add: step nth_append)
    show ?thesis
      unfolding merge_inv_def using 1 2 3 by blast
  next
    case False
    then have look: "fst st (?H n) = None"
      by (simp add: hm)
    have least: "(LEAST k. ?H k = ?H n) = n"
    proof (rule Least_equality)
      show "?H n = ?H n" ..
      fix y assume "?H y = ?H n"
      with False show "n \<le> y" by (meson not_le_imp_less)
    qed
    have ex: "(\<exists>k<Suc n. ?H k = h) \<longleftrightarrow> (h = ?H n \<or> (\<exists>k<n. ?H k = h))" for h
      by (auto simp: less_Suc_eq)
    have step: "mergeStep ops arr m st n = ((fst st)(?H n \<mapsto> n), snd st @ [n])"
      by (simp add: mergeStep_def look)
    have 1: "length (snd (mergeStep ops arr m st n)) = Suc n"
      by (simp add: step len)
    have 2: "fst (mergeStep ops arr m st n) h =
        (if \<exists>k<Suc n. ?H k = h then Some (LEAST k. ?H k = h) else None)" for h
    proof (cases "h = ?H n")
      case True
      then show ?thesis unfolding ex by (simp add: step least)
    next
      case neq: False
      then show ?thesis unfolding ex by (simp add: step hm)
    qed
    have 3: "snd (mergeStep ops arr m st n) ! i = (LEAST k. ?H k = ?H i)" if "i < Suc n" for i
      using that len ia least by (cases "i = n") (simp_all add: step nth_append)
    show ?thesis
      unfolding merge_inv_def using 1 2 3 by blast
  qed
qed

lemma merge_inv_loop:
  "merge_inv (vertexHash ops arr m) n (foldl (mergeStep ops arr m) (Map.empty, []) [0..<n])"
proof (induction n)
  case 0
  show ?case by (simp add: merge_inv_def)
next
  case (Suc n)
  then show ?case by (simp add: merge_inv_step)
qed

lemma computeVerticesIndexArray_length:
  "length (computeVerticesIndexArray ops positions tolerance) = count positions"
  using merge_inv_loop [of ops "array positions" "shiftMultiplier ops tolerance" "count positions"]
  by (simp add: computeVerticesIndexArray_def merge_inv_def)

lemma computeVerticesIndexArray_first:
  assumes "i < count positions"
  shows "computeVerticesIndexArray ops positions tolerance ! i =
    (LEAST k. vertexHash ops (array positions) (shiftMultiplier ops tolerance) k =
              vertexHash ops (array positions) (shiftMultiplier ops tolerance) i)"
  using merge_inv_loop [of ops "array positions" "shiftMultiplier ops tolerance" "count positions"] assms
  by (simp add: computeVerticesIndexArray_def merge_inv_def)

lemma same_index_iff_same_hash:
  assumes "i < count positions" "j < count positions"
  shows "computeVerticesIndexArray ops positions tolerance ! i =
         computeVerticesIndexArray ops positions tolerance ! j \<longleftrightarrow>
         vertexHash ops (array positions) (shiftMultiplier ops tolerance) i =
         vertexHash ops (array positions) (shiftMultiplier ops tolerance) j"
proof -
  let ?H = "vertexHash ops (array positions) (shiftMultiplier ops tolerance)"
  have L: "?H (LEAST k. ?H k = ?H n) = ?H n" for n
    by (rule LeastI [of "\<lambda>k. ?H k = ?H n" n]) simp
  show ?thesis
  proof
    assume "computeVerticesIndexArray ops positions tolerance ! i =
         computeVerticesIndexArray ops positions tolerance ! j"
    then have eq: "(LEAST k. ?H k = ?H i) = (LEAST k. ?H k = ?H j)"
      using assms by (simp add: computeVerticesIndexArray_first)
    have "?H i = ?H (LEAST k. ?H k = ?H i)"
      by (rule L [symmetric])
    also have "\<dots> = ?H (LEAST k. ?H k = ?H j)"
      using eq by (rule arg_cong)
    also have "\<dots> = ?H j"
      by (rule L)
    finally show "?H i = ?H j" .
  next
    assume "?H i = ?H j"
    then show "computeVerticesIndexArray ops positions tolerance ! i =
         computeVerticesIndexArray ops positions tolerance ! j"
      using assms by (simp add: computeVerticesIndexArray_first)
  qed
qed

text \<open>
  Positions in the same grid cell have the same hash, hence the same canonical index.
  The converse fails, since the hash does not separate the components.
\<close>

lemma gridCell_same_hash:
  "gridCell ops positions tolerance i = gridCell ops positions tolerance j \<Longrightarrow>
   vertexHash ops (array positions) (shiftMultiplier ops tolerance) i =
   vertexHash ops (array positions) (shiftMultiplier ops tolerance) j"
  by (simp add: gridCell_def vertexHash_def)

lemma gridCell_same_index:
  assumes "i < count positions" "j < count positions"
    and "gridCell ops positions tolerance i = gridCell ops positions tolerance j"
  shows "computeVerticesIndexArray ops positions tolerance ! i =
         computeVerticesIndexArray ops positions tolerance ! j"
  by (rule iffD2 [OF same_index_iff_same_hash [OF assms(1,2)] gridCell_same_hash [OF assms(3)]])

lemmas eval_hash =
  vertexHash_def quantized_def array_get_def Math_round_def number_toString_def
  exactArithmetic_simps int_toString_def nat_toString.simps digit_def

lemmas eval_merge =
  computeVerticesIndexArray_def shiftMultiplier_one numeral_2_eq_2 numeral_3_eq_3
  mergeStep_def Let_def

lemma hash_1_23_4: "vertexHash exactArithmetic [1, 23, 4, 12, 3, 4] 1 0 = ''1234''"
  by (simp add: eval_hash)

lemma hash_12_3_4: "vertexHash exactArithmetic [1, 23, 4, 12, 3, 4] 1 (Suc 0) = ''1234''"
  by (simp add: eval_hash)

text \<open>
  Claim C1: positions whose quantized components are equal get the same canonical
  index, and that index is the index of the first such position. The code at the
  positions \<open>(1, 23, 4)\<close> and \<open>(12, 3, 4)\<close> with tolerance \<open>1\<close>: both hash to
  \<^verbatim>\<open>1234\<close>, so position \<open>1\<close> gets the canonical index \<open>0\<close>, although the grid
  cells differ and the first position in the grid cell of position \<open>1\<close> is position \<open>1\<close>.
\<close>

theorem computeVerticesIndexArray_collision:
  "computeVerticesIndexArray exactArithmetic \<lparr>array = [1, 23, 4, 12, 3, 4], itemSize = 3, count = 2\<rparr> 1 = [0, 0] \<and>
   gridCell exactArithmetic \<lparr>array = [1, 23, 4, 12, 3, 4], itemSize = 3, count = 2\<rparr> 1 0 =
     [Some 1, Some 23, Some 4] \<and>
   gridCell exactArithmetic \<lparr>array = [1, 23, 4, 12, 3, 4], itemSize = 3, count = 2\<rparr> 1 1 =
     [Some 12, Some 3, Some 4]"
proof (intro conjI)
  show "computeVerticesIndexArray exactArithmetic \<lparr>array = [1, 23, 4, 12, 3, 4], itemSize = 3, count = 2\<rparr> 1 = [0, 0]"
    by (simp add: eval_merge hash_1_23_4 hash_12_3_4)
qed (simp_all add: gridCell_def shiftMultiplier_one quantized_def array_get_def Math_round_def
    exactArithmetic_simps)

lemma hash_1_10_0: "vertexHash exactArithmetic [1, 10, 0, 11, 0, 0] 1 0 = ''1100''"
  by (simp add: eval_hash)

lemma hash_11_0_0: "vertexHash exactArithmetic [1, 10, 0, 11, 0, 0] 1 (Suc 0) = ''1100''"
  by (simp add: eval_hash)

text \<open>
  Claim C6: on a position list with no two positions in the same grid cell, the
  canonical indices are the identity. The code at the positions \<open>(1, 10, 0)\<close> and
  \<open>(11, 0, 0)\<close> with tolerance \<open>1\<close>: the grid cells differ, both hash to \<^verbatim>\<open>1100\<close>,
  and the result is \<open>[0, 0]\<close>, not \<open>[0, 1]\<close>.
\<close>

theorem computeVerticesIndexArray_not_identity:
  "gridCell exactArithmetic \<lparr>array = [1, 10, 0, 11, 0, 0], itemSize = 3, count = 2\<rparr> 1 0 \<noteq>
   gridCell exactArithmetic \<lparr>array = [1, 10, 0, 11, 0, 0], itemSize = 3, count = 2\<rparr> 1 1 \<and>
   computeVerticesIndexArray exactArithmetic \<lparr>array = [1, 10, 0, 11, 0, 0], itemSize = 3, count = 2\<rparr> 1 = [0, 0] \<and>
   computeVerticesIndexArray exactArithmetic \<lparr>array = [1, 10, 0, 11, 0, 0], itemSize = 3, count = 2\<rparr> 1 \<noteq> [0..<2]"
proof (intro conjI)
  show "gridCell exactArithmetic \<lparr>array = [1, 10, 0, 11, 0, 0], itemSize = 3, count = 2\<rparr> 1 0 \<noteq>
   gridCell exactArithmetic \<lparr>array = [1, 10, 0, 11, 0, 0], itemSize = 3, count = 2\<rparr> 1 1"
    by (simp add: gridCell_def shiftMultiplier_one quantized_def array_get_def Math_round_def
        exactArithmetic_simps)
  show *: "computeVerticesIndexArray exactArithmetic \<lparr>array = [1, 10, 0, 11, 0, 0], itemSize = 3, count = 2\<rparr> 1 = [0, 0]"
    by (simp add: eval_merge hash_1_10_0 hash_11_0_0)
  show "computeVerticesIndexArray exactArithmetic \<lparr>array = [1, 10, 0, 11, 0, 0], itemSize = 3, count = 2\<rparr> 1 \<noteq> [0..<2]"
    unfolding * by (simp add: numeral_2_eq_2)
qed

text \<open>
  Claim C10: the index array has one entry per position, no entry points forward, and
  each canonical index is its own canonical index.
\<close>

theorem computeVerticesIndexArray_retraction:
  "length (computeVerticesIndexArray ops positions tolerance) = count positions \<and>
   (\<forall>i<count positions.
      computeVerticesIndexArray ops positions tolerance ! i \<le> i \<and>
      computeVerticesIndexArray ops positions tolerance !
        (computeVerticesIndexArray ops positions tolerance ! i) =
      computeVerticesIndexArray ops positions tolerance ! i)"
proof (intro conjI allI impI)
  show "length (computeVerticesIndexArray ops positions tolerance) = count positions"
    by (rule computeVerticesIndexArray_length)
next
  fix i assume i: "i < count positions"
  let ?H = "vertexHash ops (array positions) (shiftMultiplier ops tolerance)"
  let ?c = "LEAST k. ?H k = ?H i"
  have idx: "computeVerticesIndexArray ops positions tolerance ! i = ?c"
    using i by (rule computeVerticesIndexArray_first)
  show le: "computeVerticesIndexArray ops positions tolerance ! i \<le> i"
    unfolding idx by (rule Least_le) simp
  have Hc: "?H ?c = ?H i"
    by (rule LeastI [of "\<lambda>k. ?H k = ?H i" i]) simp
  have "?c < count positions"
    using le i unfolding idx by simp
  then have "computeVerticesIndexArray ops positions tolerance ! ?c = (LEAST k. ?H k = ?H ?c)"
    by (rule computeVerticesIndexArray_first)
  then show "computeVerticesIndexArray ops positions tolerance !
        (computeVerticesIndexArray ops positions tolerance ! i) =
      computeVerticesIndexArray ops positions tolerance ! i"
    unfolding idx Hc .
qed

theorem computeVerticesIndexArray_retraction_witness:
  "length (computeVerticesIndexArray exactArithmetic \<lparr>array = [1, 23, 4, 12, 3, 4], itemSize = 3, count = 2\<rparr> 1) = 2 \<and>
   computeVerticesIndexArray exactArithmetic \<lparr>array = [1, 23, 4, 12, 3, 4], itemSize = 3, count = 2\<rparr> 1 ! 1 \<le> 1 \<and>
   computeVerticesIndexArray exactArithmetic \<lparr>array = [1, 23, 4, 12, 3, 4], itemSize = 3, count = 2\<rparr> 1 !
     (computeVerticesIndexArray exactArithmetic \<lparr>array = [1, 23, 4, 12, 3, 4], itemSize = 3, count = 2\<rparr> 1 ! 1) =
   computeVerticesIndexArray exactArithmetic \<lparr>array = [1, 23, 4, 12, 3, 4], itemSize = 3, count = 2\<rparr> 1 ! 1"
  using computeVerticesIndexArray_retraction
    [of exactArithmetic "\<lparr>array = [1, 23, 4, 12, 3, 4], itemSize = 3, count = 2\<rparr>" 1]
  by simp

lemma ceiling_log10_2: "\<lceil>log 10 (2::real)\<rceil> = 1"
  by (simp add: ceiling_eq_iff)

text \<open>When the logarithm computed is an integer, the ceiling changes nothing.\<close>

lemma shiftMultiplier_spec_integer:
  assumes "Math_log10 ops (num_divide ops 1 tolerance) \<in> \<int>"
  shows "shiftMultiplier ops tolerance = specMultiplier ops tolerance"
proof -
  from assms obtain z where "Math_log10 ops (num_divide ops 1 tolerance) = of_int z"
    by (rule Ints_cases)
  then show ?thesis
    by (simp add: shiftMultiplier_def decimalShift_def specMultiplier_def)
qed

text \<open>
  Claim C7, as stated: the multiplier is \<open>10^ceil(log10(1/\<epsilon>))\<close>. At \<open>\<epsilon> = 1/2\<close>, with
  exact operations, the code's multiplier is \<open>2\<close> and the stated one is \<open>10\<close>.
\<close>

theorem shiftMultiplier_half_not_spec:
  "shiftMultiplier exactArithmetic (1 / 2) = 2 \<and> specMultiplier exactArithmetic (1 / 2) = 10 \<and>
   shiftMultiplier exactArithmetic (1 / 2) \<noteq> specMultiplier exactArithmetic (1 / 2)"
  by (simp add: shiftMultiplier_exact specMultiplier_def exactArithmetic_simps ceiling_log10_2)

text \<open>
  Claim C7, amended: for every tolerance \<open>\<epsilon>\<close> the multiplier is
  \<^verbatim>\<open>Math.pow(10, Math.log10(1 / \<epsilon>))\<close>, \<open>10\<close> to the power \<open>log10(1/\<epsilon>)\<close> with no
  ceiling taken; it is the specification's \<open>10^ceil(log10(1/\<epsilon>))\<close> whenever the logarithm
  computed is an integer. The hash key of a position is the concatenation of the strings
  of its three components, each multiplied by the multiplier and rounded, and two
  positions get the same canonical index exactly when their hash keys are equal. All of
  it holds however the operations on doubles round.
\<close>

theorem shiftMultiplier_no_ceiling:
  "shiftMultiplier ops tolerance =
     Math_pow ops 10 (Math_log10 ops (num_divide ops 1 tolerance)) \<and>
   (Math_log10 ops (num_divide ops 1 tolerance) \<in> \<int> \<longrightarrow>
      shiftMultiplier ops tolerance = specMultiplier ops tolerance) \<and>
   vertexHash ops (array positions) (shiftMultiplier ops tolerance) i =
     concat (map (\<lambda>j. number_toString ops
       (map_option (\<lambda>x. Math_round (num_times ops x (shiftMultiplier ops tolerance)))
          (array_get (array positions) (i * 3 + j))))
       [0, 1, 2]) \<and>
   (\<forall>i<count positions. \<forall>j<count positions.
      computeVerticesIndexArray ops positions tolerance ! i =
      computeVerticesIndexArray ops positions tolerance ! j \<longleftrightarrow>
      vertexHash ops (array positions) (shiftMultiplier ops tolerance) i =
      vertexHash ops (array positions) (shiftMultiplier ops tolerance) j)"
proof (intro conjI impI)
  show "shiftMultiplier ops tolerance =
      Math_pow ops 10 (Math_log10 ops (num_divide ops 1 tolerance))"
    by (simp add: shiftMultiplier_def decimalShift_def)
  show "shiftMultiplier ops tolerance = specMultiplier ops tolerance"
    if "Math_log10 ops (num_divide ops 1 tolerance) \<in> \<int>"
    using that by (rule shiftMultiplier_spec_integer)
  show "vertexHash ops (array positions) (shiftMultiplier ops tolerance) i =
     concat (map (\<lambda>j. number_toString ops
       (map_option (\<lambda>x. Math_round (num_times ops x (shiftMultiplier ops tolerance)))
          (array_get (array positions) (i * 3 + j))))
       [0, 1, 2])"
    unfolding vertexHash_concat quantized_def ..
  show "\<forall>i<count positions. \<forall>j<count positions.
      computeVerticesIndexArray ops positions tolerance ! i =
      computeVerticesIndexArray ops positions tolerance ! j \<longleftrightarrow>
      vertexHash ops (array positions) (shiftMultiplier ops tolerance) i =
      vertexHash ops (array positions) (shiftMultiplier ops tolerance) j"
    by (simp add: same_index_iff_same_hash)
qed

theorem shiftMultiplier_no_ceiling_witness:
  "Math_log10 exactArithmetic (num_divide exactArithmetic 1 1) \<in> \<int> \<and>
   shiftMultiplier exactArithmetic 1 = specMultiplier exactArithmetic 1 \<and>
   (0::nat) < 2 \<and> (1::nat) < 2 \<and>
   vertexHash exactArithmetic [1, 23, 4, 12, 3, 4] (shiftMultiplier exactArithmetic 1) 0 =
   vertexHash exactArithmetic [1, 23, 4, 12, 3, 4] (shiftMultiplier exactArithmetic 1) 1 \<and>
   computeVerticesIndexArray exactArithmetic
     \<lparr>array = [1, 23, 4, 12, 3, 4], itemSize = 3, count = 2\<rparr> 1 ! 0 =
   computeVerticesIndexArray exactArithmetic
     \<lparr>array = [1, 23, 4, 12, 3, 4], itemSize = 3, count = 2\<rparr> 1 ! 1"
proof -
  have z: "Math_log10 exactArithmetic (num_divide exactArithmetic 1 1) \<in> \<int>"
    by (simp add: exactArithmetic_simps)
  have h: "vertexHash exactArithmetic [1, 23, 4, 12, 3, 4] (shiftMultiplier exactArithmetic 1) 0 =
      vertexHash exactArithmetic [1, 23, 4, 12, 3, 4] (shiftMultiplier exactArithmetic 1) 1"
    unfolding shiftMultiplier_one One_nat_def by (simp only: hash_1_23_4 hash_12_3_4)
  note t = shiftMultiplier_no_ceiling [of exactArithmetic 1
      "\<lparr>array = [1, 23, 4, 12, 3, 4], itemSize = 3, count = 2\<rparr>" 0]
  from t z have s: "shiftMultiplier exactArithmetic 1 = specMultiplier exactArithmetic 1"
    by blast
  from t have "\<forall>i<2. \<forall>j<2.
      computeVerticesIndexArray exactArithmetic
        \<lparr>array = [1, 23, 4, 12, 3, 4], itemSize = 3, count = 2\<rparr> 1 ! i =
      computeVerticesIndexArray exactArithmetic
        \<lparr>array = [1, 23, 4, 12, 3, 4], itemSize = 3, count = 2\<rparr> 1 ! j \<longleftrightarrow>
      vertexHash exactArithmetic [1, 23, 4, 12, 3, 4] (shiftMultiplier exactArithmetic 1) i =
      vertexHash exactArithmetic [1, 23, 4, 12, 3, 4] (shiftMultiplier exactArithmetic 1) j"
    by simp
  with h have "computeVerticesIndexArray exactArithmetic
     \<lparr>array = [1, 23, 4, 12, 3, 4], itemSize = 3, count = 2\<rparr> 1 ! 0 =
   computeVerticesIndexArray exactArithmetic
     \<lparr>array = [1, 23, 4, 12, 3, 4], itemSize = 3, count = 2\<rparr> 1 ! 1"
    by simp
  with z s h show ?thesis by simp
qed

section \<open>Properties of the build\<close>






















lemma buildFace_error:
  "fst (buildFace positions getIndex st faceIndex) = Some e \<Longrightarrow>
   e = Thrown ''NonManifoldConstructionError'' ''halfedge already bound to a face''"
  by (auto simp: buildFace_def addFace_def Let_def split: sum.splits if_splits prod.splits)

lemma buildFaces_error:
  "fst (buildFaces positions getIndex bound faceIndex st) = Some e \<Longrightarrow>
   e = Thrown ''NonManifoldConstructionError'' ''halfedge already bound to a face''"
proof (induction positions getIndex bound faceIndex st rule: buildFaces.induct)
  case (1 positions getIndex bound faceIndex st)
  show ?case
  proof (cases "of_nat faceIndex < bound")
    case False
    with "1.prems" show ?thesis by (simp add: buildFaces.simps)
  next
    case True
    obtain r st' where bf: "buildFace positions getIndex st faceIndex = (r, st')"
      by (cases "buildFace positions getIndex st faceIndex")
    show ?thesis
    proof (cases r)
      case None
      with True bf "1.prems" "1.IH" show ?thesis
        by (simp add: buildFaces.simps [of _ _ _ faceIndex])
    next
      case (Some e')
      with True bf "1.prems" have "e' = e"
        by (simp add: buildFaces.simps [of _ _ _ faceIndex])
      with Some bf buildFace_error [of positions getIndex st faceIndex e] show ?thesis
        by simp
    qed
  qed
qed

lemma buildFromGeometry_positions:
  assumes "position geometry = Some positions"
  shows "buildFromGeometry ops this geometry =
    map_prod id ds
      (buildFaces positions
        (getVertexIndex (computeVerticesIndexArray ops positions (options_tolerance this)) (index geometry))
        (nbOfFaces positions (index geometry))
        0 \<lparr>ds = clear this, halfedgeMap = Map.empty, vertexMap = Map.empty, loopHalfedges = []\<rparr>)"
  by (simp add: buildFromGeometry_def assms Let_def clear_def split: prod.splits)

text \<open>
  Claim C5, amended: for a geometry with no position attribute the build fails with a
  plain \<^verbatim>\<open>Error\<close> whose message is
  \<^verbatim>\<open>BufferGeometry does not have a position BufferAttribute.\<close>, leaving the store
  cleared; for a geometry with a position attribute this error is not raised.
\<close>

theorem buildFromGeometry_missing_position:
  "(position geometry = None \<longrightarrow>
      buildFromGeometry ops this geometry =
        (Some (Thrown ''Error'' ''BufferGeometry does not have a position BufferAttribute.''),
         clear this)) \<and>
   (position geometry \<noteq> None \<longrightarrow>
      fst (buildFromGeometry ops this geometry) \<noteq>
        Some (Thrown ''Error'' ''BufferGeometry does not have a position BufferAttribute.''))"
proof (intro conjI impI)
  assume "position geometry = None"
  then show "buildFromGeometry ops this geometry =
        (Some (Thrown ''Error'' ''BufferGeometry does not have a position BufferAttribute.''),
         clear this)"
    by (simp add: buildFromGeometry_def)
next
  assume "position geometry \<noteq> None"
  then obtain positions where p: "position geometry = Some positions" by blast
  show "fst (buildFromGeometry ops this geometry) \<noteq>
        Some (Thrown ''Error'' ''BufferGeometry does not have a position BufferAttribute.'')"
  proof
    assume "fst (buildFromGeometry ops this geometry) =
        Some (Thrown ''Error'' ''BufferGeometry does not have a position BufferAttribute.'')"
    then show False
      unfolding buildFromGeometry_positions [OF p]
      by (auto dest: buildFaces_error)
  qed
qed

text \<open>
  Claim C8: the result of a build, the error or its absence together with the store
  left behind, depends on the geometry and the tolerance only, not on what the store
  held before.
\<close>

theorem buildFromGeometry_from_scratch:
  assumes "options_tolerance this = options_tolerance this'"
  shows "buildFromGeometry ops this geometry = buildFromGeometry ops this' geometry"
proof -
  have "clear this = clear this'"
    using assms by (simp add: clear_def)
  then show ?thesis
    by (simp add: buildFromGeometry_def)
qed


theorem buildFromGeometry_missing_position_witness:
  "position \<lparr>position = None, index = None\<rparr> = None \<and>
   buildFromGeometry exactArithmetic emptyStore \<lparr>position = None, index = None\<rparr> =
     (Some (Thrown ''Error'' ''BufferGeometry does not have a position BufferAttribute.''),
      clear emptyStore) \<and>
   position \<lparr>position = Some trianglePositions, index = None\<rparr> \<noteq> None \<and>
   fst (buildFromGeometry exactArithmetic emptyStore \<lparr>position = Some trianglePositions, index = None\<rparr>) \<noteq>
     Some (Thrown ''Error'' ''BufferGeometry does not have a position BufferAttribute.'')"
  using buildFromGeometry_missing_position
      [of "\<lparr>position = None, index = None\<rparr>" exactArithmetic emptyStore]
    buildFromGeometry_missing_position
      [of "\<lparr>position = Some trianglePositions, index = None\<rparr>" exactArithmetic emptyStore]
  by simp

text \<open>
  Claim C5, as stated: the error raised is of type \<^verbatim>\<open>MissingAttributeError\<close>. The error
  the code raises for a geometry with no position attribute is of class \<^verbatim>\<open>Error\<close>.
\<close>

theorem buildFromGeometry_error_class:
  "map_option error_name (fst (buildFromGeometry exactArithmetic emptyStore \<lparr>position = None, index = None\<rparr>)) =
     Some ''Error'' \<and>
   map_option error_name (fst (buildFromGeometry exactArithmetic emptyStore \<lparr>position = None, index = None\<rparr>)) \<noteq>
     Some ''MissingAttributeError''"
  by (simp add: buildFromGeometry_def)

theorem buildFromGeometry_from_scratch_witness:
  "options_tolerance (emptyStore\<lparr>faces := [\<lparr>face_id = Some 7, face_halfedge = None\<rparr>]\<rparr>) =
     options_tolerance emptyStore \<and>
   emptyStore\<lparr>faces := [\<lparr>face_id = Some 7, face_halfedge = None\<rparr>]\<rparr> \<noteq> emptyStore \<and>
   buildFromGeometry exactArithmetic (emptyStore\<lparr>faces := [\<lparr>face_id = Some 7, face_halfedge = None\<rparr>]\<rparr>)
     \<lparr>position = Some trianglePositions, index = None\<rparr> =
   buildFromGeometry exactArithmetic emptyStore \<lparr>position = Some trianglePositions, index = None\<rparr>"
  using buildFromGeometry_from_scratch
    [of "emptyStore\<lparr>faces := [\<lparr>face_id = Some 7, face_halfedge = None\<rparr>]\<rparr>" emptyStore
      exactArithmetic "\<lparr>position = Some trianglePositions, index = None\<rparr>"]
  by (simp add: emptyStore_def)


section \<open>Array accesses of the build\<close>

lemma computeVerticesIndexArray_le:
  assumes "i < count positions"
  shows "computeVerticesIndexArray ops positions tolerance ! i \<le> i"
  unfolding computeVerticesIndexArray_first [OF assms]
  by (rule Least_le) simp

lemma face_loop_test: "(of_nat f :: rat) < of_nat n / 3 \<longleftrightarrow> 3 * f < n"
proof -
  have "(of_nat f :: rat) < of_nat n / 3 \<longleftrightarrow> (of_nat f :: rat) * 3 < of_nat n"
    by (simp add: pos_less_divide_eq)
  also have "\<dots> \<longleftrightarrow> (of_nat (f * 3) :: rat) < of_nat n"
    by simp
  also have "\<dots> \<longleftrightarrow> f * 3 < n"
    by (rule of_nat_less_iff)
  finally show ?thesis by (simp add: mult.commute)
qed

lemma nbOfFaces_test:
  "of_nat f < nbOfFaces positions indexBuffer \<longleftrightarrow> 3 * f < bufferCount positions indexBuffer"
  by (cases indexBuffer) (simp_all only: nbOfFaces_def bufferCount_def option.case face_loop_test)

lemma side_index_bound:
  assumes "3 * f < n" "n mod 3 = 0" "b \<in> {f * 3 + i, f * 3 + (i + 1) mod 3}" "i < 3"
  shows "b < (n::nat)"
proof -
  from assms(1,2) have "3 * f + 3 \<le> n" by presburger
  moreover have "(i + 1) mod 3 < 3" by simp
  ultimately show ?thesis using assms(3,4) by auto
qed

text \<open>The reads of the vertex merger.\<close>

lemma quantized_defined:
  assumes wp: "wellFormedPositions positions" and i: "i < count positions" and j: "j < 3"
  shows "quantized ops (array positions) m i j \<noteq> None"
proof -
  from i j have "i * 3 + j < 3 * count positions" by simp
  also from wp have "3 * count positions \<le> itemSize positions * count positions"
    unfolding wellFormedPositions_def by (intro mult_le_mono1) simp
  also from wp have "\<dots> = length (array positions)"
    by (simp add: wellFormedPositions_def)
  finally show ?thesis
    by (simp add: quantized_def array_get_def)
qed

text \<open>The reads of a position by \<^verbatim>\<open>fromBufferAttribute\<close>.\<close>

lemma fromBufferAttribute_defined:
  assumes wp: "wellFormedPositions positions" and i: "i1 < count positions"
  shows "\<exists>x y z. fromBufferAttribute positions (Some i1) = (Some x, Some y, Some z)"
proof -
  from i have "Suc i1 \<le> count positions" by simp
  then have "itemSize positions * Suc i1 \<le> itemSize positions * count positions"
    by (rule mult_le_mono2)
  moreover from wp have "3 \<le> itemSize positions"
    and "length (array positions) = itemSize positions * count positions"
    by (simp_all add: wellFormedPositions_def)
  ultimately have "i1 * itemSize positions + 2 < length (array positions)"
    by (simp add: mult.commute)
  then show ?thesis
    by (simp add: fromBufferAttribute_def array_get_def)
qed

text \<open>The reads of a canonical index by \<^verbatim>\<open>getVertexIndex\<close>.\<close>

lemma getVertexIndex_defined:
  assumes wi: "wellFormedIndex positions indexBuffer"
    and b: "b < bufferCount positions indexBuffer"
  shows "\<exists>i1. getVertexIndex (computeVerticesIndexArray ops positions tolerance) indexBuffer b =
      Some i1 \<and> i1 < count positions"
proof -
  let ?iva = "computeVerticesIndexArray ops positions tolerance"
  have len: "length ?iva = count positions"
    by (rule computeVerticesIndexArray_length)
  have pos: "?iva ! k < count positions" if "k < count positions" for k
  proof -
    have "?iva ! k \<le> k" using that by (rule computeVerticesIndexArray_le)
    with that show ?thesis by simp
  qed
  show ?thesis
  proof (cases indexBuffer)
    case None
    with b have "b < count positions" by (simp add: bufferCount_def)
    with None pos [of b] show ?thesis
      by (simp add: getVertexIndex_def array_get_def len)
  next
    case (Some ib)
    with b wi have bl: "b < length (array ib)" and "\<forall>k \<in> set (array ib). k < count positions"
      by (simp_all add: bufferCount_def wellFormedIndex_def)
    then have k: "array ib ! b < count positions" by simp
    with Some bl pos [of "array ib ! b"] show ?thesis
      by (simp add: getVertexIndex_def array_get_def len)
  qed
qed

lemma getVertexIndex_undefined:
  assumes wi: "wellFormedIndex positions indexBuffer"
    and b: "bufferCount positions indexBuffer \<le> b"
  shows "getVertexIndex (computeVerticesIndexArray ops positions tolerance) indexBuffer b = None"
proof (cases indexBuffer)
  case None
  with b show ?thesis
    by (simp add: getVertexIndex_def array_get_def bufferCount_def
        computeVerticesIndexArray_length)
next
  case (Some ib)
  with b wi show ?thesis
    by (simp add: getVertexIndex_def array_get_def bufferCount_def wellFormedIndex_def)
qed

lemma side_reads_defined:
  assumes wp: "wellFormedPositions positions" and wi: "wellFormedIndex positions indexBuffer"
    and b: "b < bufferCount positions indexBuffer"
  shows "\<exists>i1 x y z.
      getVertexIndex (computeVerticesIndexArray ops positions tolerance) indexBuffer b = Some i1 \<and>
      fromBufferAttribute positions (Some i1) = (Some x, Some y, Some z)"
proof -
  from getVertexIndex_defined [OF wi b, of ops tolerance] obtain i1
    where g: "getVertexIndex (computeVerticesIndexArray ops positions tolerance) indexBuffer b = Some i1"
      and i: "i1 < count positions"
    by blast
  from fromBufferAttribute_defined [OF wp i] g show ?thesis
    by blast
qed

subsection \<open>What the build stores of its reads\<close>

text \<open>The primitive operations after \<^verbatim>\<open>addVertex\<close> leave identifiers and positions alone.\<close>

lemma setOutgoing_ids: "map vertex_id (setOutgoing vs v h) = map vertex_id vs"
  by (simp add: setOutgoing_def array_get_def list_eq_iff_nth_eq nth_list_update
      split: option.split)

lemma setOutgoing_positions: "map vertex_position (setOutgoing vs v h) = map vertex_position vs"
  by (simp add: setOutgoing_def array_get_def list_eq_iff_nth_eq nth_list_update
      split: option.split)

lemma addEdge_ids:
  "map vertex_id (vertices (fst (addEdge struct v1 v2))) = map vertex_id (vertices struct)"
  by (simp add: addEdge_def Let_def setOutgoing_ids)

lemma addEdge_positions:
  "map vertex_position (vertices (fst (addEdge struct v1 v2))) =
   map vertex_position (vertices struct)"
  by (simp add: addEdge_def Let_def setOutgoing_positions)

lemma getVertex_vertices:
  "vertices (ds (snd (getVertex positions i st))) =
   (case vertexMap st i of
      Some v \<Rightarrow> vertices (ds st)
    | None \<Rightarrow> vertices (ds st) @
        [\<lparr>vertex_id = i, vertex_position = fromBufferAttribute positions i,
          vertex_halfedge = None\<rparr>])"
  by (simp add: getVertex_def addVertex_def Let_def split: option.split)

lemma getVertex_vertexMap:
  "vertexMap (snd (getVertex positions i st)) =
   (case vertexMap st i of
      Some v \<Rightarrow> vertexMap st
    | None \<Rightarrow> (vertexMap st)(i \<mapsto> length (vertices (ds st))))"
  by (simp add: getVertex_def addVertex_def Let_def split: option.split)

lemma buildSide_vertexMap:
  "vertexMap (buildSide positions getIndex faceIndex st i) =
   vertexMap (snd (getVertex positions (getIndex (faceIndex * 3 + (i + 1) mod 3))
     (snd (getVertex positions (getIndex (faceIndex * 3 + i)) st))))"
  by (simp add: buildSide_def Let_def split_beta split: option.split)

lemma buildSide_ids:
  "map vertex_id (vertices (ds (buildSide positions getIndex faceIndex st i))) =
   map vertex_id (vertices (ds (snd (getVertex positions (getIndex (faceIndex * 3 + (i + 1) mod 3))
     (snd (getVertex positions (getIndex (faceIndex * 3 + i)) st))))))"
  by (simp add: buildSide_def Let_def split_beta addEdge_ids split: option.split)

lemma buildSide_positions:
  "map vertex_position (vertices (ds (buildSide positions getIndex faceIndex st i))) =
   map vertex_position (vertices (ds (snd (getVertex positions (getIndex (faceIndex * 3 + (i + 1) mod 3))
     (snd (getVertex positions (getIndex (faceIndex * 3 + i)) st))))))"
  by (simp add: buildSide_def Let_def split_beta addEdge_positions split: option.split)

lemma buildFace_vertices:
  "vertices (ds (snd (buildFace positions getIndex st faceIndex))) =
   vertices (ds (foldl (buildSide positions getIndex faceIndex) (st\<lparr>loopHalfedges := []\<rparr>) [0, 1, 2]))"
  by (simp add: buildFace_def Let_def addFace_def split: sum.split prod.split)

lemma buildFace_vertexMap:
  "vertexMap (snd (buildFace positions getIndex st faceIndex)) =
   vertexMap (foldl (buildSide positions getIndex faceIndex) (st\<lparr>loopHalfedges := []\<rparr>) [0, 1, 2])"
  by (simp add: buildFace_def Let_def addFace_def split: sum.split prod.split)

text \<open>Defined vertices, through lists that agree on identifiers and positions.\<close>

lemma definedVertex_transfer:
  assumes ids: "map vertex_id ws = map vertex_id vs"
    and ps: "map vertex_position ws = map vertex_position vs"
    and d: "\<forall>v \<in> set vs. definedVertex v"
  shows "\<forall>v \<in> set ws. definedVertex v"
proof
  fix w assume "w \<in> set ws"
  then obtain k where k: "k < length ws" and w: "w = ws ! k"
    by (auto simp: in_set_conv_nth)
  from ids have len: "length ws = length vs"
    by (rule map_eq_imp_length_eq)
  from ids k len have "vertex_id (ws ! k) = vertex_id (vs ! k)"
    by (metis nth_map)
  moreover from ps k len have "vertex_position (ws ! k) = vertex_position (vs ! k)"
    by (metis nth_map)
  moreover from d k len have "definedVertex (vs ! k)"
    by simp
  ultimately show "definedVertex w"
    unfolding w by (simp add: definedVertex_def)
qed

lemma getVertex_defined:
  assumes d: "\<forall>v \<in> set (vertices (ds st)). definedVertex v"
    and r: "fromBufferAttribute positions (Some i1) = (Some x, Some y, Some z)"
  shows "\<forall>v \<in> set (vertices (ds (snd (getVertex positions (Some i1) st)))). definedVertex v"
  using d r by (simp add: getVertex_vertices definedVertex_def split: option.split)

lemma buildSide_defined:
  assumes d: "\<forall>v \<in> set (vertices (ds st)). definedVertex v"
    and r: "\<forall>b \<in> {faceIndex * 3 + i, faceIndex * 3 + (i + 1) mod 3}.
      \<exists>i1 x y z. getIndex b = Some i1 \<and>
        fromBufferAttribute positions (Some i1) = (Some x, Some y, Some z)"
  shows "\<forall>v \<in> set (vertices (ds (buildSide positions getIndex faceIndex st i))). definedVertex v"
proof -
  from r obtain i1 x y z where g1: "getIndex (faceIndex * 3 + i) = Some i1"
    and r1: "fromBufferAttribute positions (Some i1) = (Some x, Some y, Some z)"
    by blast
  from r obtain i2 x' y' z' where g2: "getIndex (faceIndex * 3 + (i + 1) mod 3) = Some i2"
    and r2: "fromBufferAttribute positions (Some i2) = (Some x', Some y', Some z')"
    by blast
  let ?st1 = "snd (getVertex positions (Some i1) st)"
  let ?st2 = "snd (getVertex positions (Some i2) ?st1)"
  have "\<forall>v \<in> set (vertices (ds ?st1)). definedVertex v"
    using d r1 by (rule getVertex_defined)
  then have "\<forall>v \<in> set (vertices (ds ?st2)). definedVertex v"
    using r2 by (rule getVertex_defined)
  then show ?thesis
    by (rule definedVertex_transfer [rotated 2]) (simp_all only: buildSide_ids buildSide_positions g1 g2)
qed

lemma buildFace_defined:
  assumes d: "\<forall>v \<in> set (vertices (ds st)). definedVertex v"
    and r: "\<forall>i<3. \<forall>b \<in> {faceIndex * 3 + i, faceIndex * 3 + (i + 1) mod 3}.
      \<exists>i1 x y z. getIndex b = Some i1 \<and>
        fromBufferAttribute positions (Some i1) = (Some x, Some y, Some z)"
  shows "\<forall>v \<in> set (vertices (ds (snd (buildFace positions getIndex st faceIndex)))). definedVertex v"
proof -
  let ?f = "buildSide positions getIndex faceIndex"
  from d have "\<forall>v \<in> set (vertices (ds (st\<lparr>loopHalfedges := []\<rparr>))). definedVertex v"
    by simp
  moreover from r have "\<forall>b \<in> {faceIndex * 3 + 0, faceIndex * 3 + (0 + 1) mod 3}.
      \<exists>i1 x y z. getIndex b = Some i1 \<and>
        fromBufferAttribute positions (Some i1) = (Some x, Some y, Some z)"
    by (rule allE [of _ 0]) simp
  ultimately have "\<forall>v \<in> set (vertices (ds (?f (st\<lparr>loopHalfedges := []\<rparr>) 0))). definedVertex v"
    by (rule buildSide_defined)
  moreover from r have "\<forall>b \<in> {faceIndex * 3 + 1, faceIndex * 3 + (1 + 1) mod 3}.
      \<exists>i1 x y z. getIndex b = Some i1 \<and>
        fromBufferAttribute positions (Some i1) = (Some x, Some y, Some z)"
    by (rule allE [of _ 1]) simp
  ultimately have "\<forall>v \<in> set (vertices (ds (?f (?f (st\<lparr>loopHalfedges := []\<rparr>) 0) 1))). definedVertex v"
    by (rule buildSide_defined)
  moreover from r have "\<forall>b \<in> {faceIndex * 3 + 2, faceIndex * 3 + (2 + 1) mod 3}.
      \<exists>i1 x y z. getIndex b = Some i1 \<and>
        fromBufferAttribute positions (Some i1) = (Some x, Some y, Some z)"
    by (rule allE [of _ 2]) simp
  ultimately have "\<forall>v \<in> set (vertices (ds (?f (?f (?f (st\<lparr>loopHalfedges := []\<rparr>) 0) 1) 2))). definedVertex v"
    by (rule buildSide_defined)
  then show ?thesis
    unfolding buildFace_vertices by simp
qed

lemma buildFaces_defined:
  assumes "\<forall>v \<in> set (vertices (ds st)). definedVertex v"
    and "\<forall>f i. of_nat f < bound \<longrightarrow> i < 3 \<longrightarrow>
      (\<forall>b \<in> {f * 3 + i, f * 3 + (i + 1) mod 3}.
        \<exists>i1 x y z. getIndex b = Some i1 \<and>
          fromBufferAttribute positions (Some i1) = (Some x, Some y, Some z))"
  shows "\<forall>v \<in> set (vertices (ds (snd (buildFaces positions getIndex bound faceIndex st)))).
    definedVertex v"
  using assms
proof (induction positions getIndex bound faceIndex st rule: buildFaces.induct)
  case (1 positions getIndex bound faceIndex st)
  show ?case
  proof (cases "of_nat faceIndex < bound")
    case False
    with "1.prems"(1) show ?thesis
      by (simp add: buildFaces.simps)
  next
    case True
    obtain r st' where bf: "buildFace positions getIndex st faceIndex = (r, st')"
      by (cases "buildFace positions getIndex st faceIndex")
    from True "1.prems"(2) have "\<forall>i<3. \<forall>b \<in> {faceIndex * 3 + i, faceIndex * 3 + (i + 1) mod 3}.
      \<exists>i1 x y z. getIndex b = Some i1 \<and>
        fromBufferAttribute positions (Some i1) = (Some x, Some y, Some z)"
      by blast
    with "1.prems"(1)
    have "\<forall>v \<in> set (vertices (ds (snd (buildFace positions getIndex st faceIndex)))). definedVertex v"
      by (rule buildFace_defined)
    then have d: "\<forall>v \<in> set (vertices (ds st')). definedVertex v"
      by (simp add: bf)
    show ?thesis
    proof (cases r)
      case (Some e)
      with True bf d show ?thesis
        by (simp add: buildFaces.simps [of positions getIndex bound faceIndex])
    next
      case None
      from "1.IH" [OF True bf [symmetric] None d "1.prems"(2)] True bf None show ?thesis
        by (simp add: buildFaces.simps [of positions getIndex bound faceIndex])
    qed
  qed
qed

text \<open>The vertex made for the index \<^verbatim>\<open>undefined\<close>.\<close>

lemma same_ids_nth:
  assumes "map vertex_id ws = map vertex_id vs" and "k < length vs"
  shows "k < length ws \<and> vertex_id (ws ! k) = vertex_id (vs ! k)"
proof -
  from assms(1) have "length ws = length vs"
    by (rule map_eq_imp_length_eq)
  with assms show ?thesis
    by (metis nth_map)
qed

lemma undefinedKept_iff:
  "undefinedKept st \<longleftrightarrow>
     (\<forall>v. vertexMap st None = Some v \<longrightarrow>
        v < length (vertices (ds st)) \<and> vertex_id (vertices (ds st) ! v) = None)"
  by (simp add: undefinedKept_def split: option.split)

lemma undefinedKept_transfer:
  assumes "undefinedKept st" and "vertexMap st' = vertexMap st"
    and "map vertex_id (vertices (ds st')) = map vertex_id (vertices (ds st))"
  shows "undefinedKept st'"
proof (cases "vertexMap st None")
  case None
  with assms(2) show ?thesis
    by (simp add: undefinedKept_iff)
next
  case (Some v)
  with assms(1) have "v < length (vertices (ds st))" and "vertex_id (vertices (ds st) ! v) = None"
    by (simp_all add: undefinedKept_iff)
  with same_ids_nth [OF assms(3), of v] Some assms(2) show ?thesis
    by (simp add: undefinedKept_iff)
qed

lemma getVertex_undefinedKept:
  assumes "undefinedKept st"
  shows "undefinedKept (snd (getVertex positions i st))"
proof (cases "vertexMap st i")
  case (Some v)
  with assms show ?thesis
    by (simp add: undefinedKept_iff getVertex_vertices getVertex_vertexMap)
next
  case None
  show ?thesis
  proof (cases i)
    case i: None
    with None show ?thesis
      by (simp add: undefinedKept_iff getVertex_vertices getVertex_vertexMap)
  next
    case i: (Some k)
    with None assms show ?thesis
      by (auto simp add: undefinedKept_iff getVertex_vertices getVertex_vertexMap nth_append)
  qed
qed

lemma getVertex_mapped:
  "vertexMap st None \<noteq> None \<or> i = None \<Longrightarrow> vertexMap (snd (getVertex positions i st)) None \<noteq> None"
  by (auto simp: getVertex_vertexMap split: option.split)

lemma buildSide_undefinedKept:
  assumes "undefinedKept st"
  shows "undefinedKept (buildSide positions getIndex faceIndex st i)"
proof -
  let ?st2 = "snd (getVertex positions (getIndex (faceIndex * 3 + (i + 1) mod 3))
     (snd (getVertex positions (getIndex (faceIndex * 3 + i)) st)))"
  from assms have "undefinedKept ?st2"
    by (intro getVertex_undefinedKept)
  then show ?thesis
    by (rule undefinedKept_transfer) (simp_all only: buildSide_vertexMap buildSide_ids)
qed

lemma buildSide_mapped:
  assumes "vertexMap st None \<noteq> None \<or> getIndex (faceIndex * 3 + (i + 1) mod 3) = None"
  shows "vertexMap (buildSide positions getIndex faceIndex st i) None \<noteq> None"
  unfolding buildSide_vertexMap
proof (rule getVertex_mapped)
  from assms
  show "vertexMap (snd (getVertex positions (getIndex (faceIndex * 3 + i)) st)) None \<noteq> None \<or>
      getIndex (faceIndex * 3 + (i + 1) mod 3) = None"
  proof
    assume "vertexMap st None \<noteq> None"
    then have "vertexMap st None \<noteq> None \<or> getIndex (faceIndex * 3 + i) = None"
      by (rule disjI1)
    then have "vertexMap (snd (getVertex positions (getIndex (faceIndex * 3 + i)) st)) None \<noteq> None"
      by (rule getVertex_mapped)
    then show ?thesis by (rule disjI1)
  next
    assume "getIndex (faceIndex * 3 + (i + 1) mod 3) = None"
    then show ?thesis by (rule disjI2)
  qed
qed

lemma buildFace_undefinedKept:
  assumes "undefinedKept st"
  shows "undefinedKept (snd (buildFace positions getIndex st faceIndex))"
proof -
  let ?f = "buildSide positions getIndex faceIndex"
  from assms have "undefinedKept (st\<lparr>loopHalfedges := []\<rparr>)"
    by (simp add: undefinedKept_iff)
  then have "undefinedKept (?f (?f (?f (st\<lparr>loopHalfedges := []\<rparr>) 0) 1) 2)"
    by (intro buildSide_undefinedKept)
  then show ?thesis
    by (rule undefinedKept_transfer) (simp_all add: buildFace_vertexMap buildFace_vertices)
qed

lemma buildFace_mapped:
  assumes "vertexMap st None \<noteq> None \<or> getIndex (faceIndex * 3 + 2) = None"
  shows "vertexMap (snd (buildFace positions getIndex st faceIndex)) None \<noteq> None"
proof -
  let ?f = "buildSide positions getIndex faceIndex"
  let ?s0 = "?f (st\<lparr>loopHalfedges := []\<rparr>) 0"
  from assms have "vertexMap ?s0 None \<noteq> None \<or> getIndex (faceIndex * 3 + (1 + 1) mod 3) = None"
  proof
    assume "vertexMap st None \<noteq> None"
    then have "vertexMap (st\<lparr>loopHalfedges := []\<rparr>) None \<noteq> None \<or>
        getIndex (faceIndex * 3 + (0 + 1) mod 3) = None"
      by simp
    then have "vertexMap ?s0 None \<noteq> None"
      by (rule buildSide_mapped)
    then show ?thesis by (rule disjI1)
  next
    assume "getIndex (faceIndex * 3 + 2) = None"
    then show ?thesis by simp
  qed
  then have "vertexMap (?f ?s0 1) None \<noteq> None"
    by (rule buildSide_mapped)
  then have "vertexMap (?f ?s0 1) None \<noteq> None \<or> getIndex (faceIndex * 3 + (2 + 1) mod 3) = None"
    by (rule disjI1)
  then have "vertexMap (?f (?f ?s0 1) 2) None \<noteq> None"
    by (rule buildSide_mapped)
  then show ?thesis
    unfolding buildFace_vertexMap by simp
qed

lemma buildFaces_undefinedKept:
  assumes "undefinedKept st"
  shows "undefinedKept (snd (buildFaces positions getIndex bound faceIndex st))"
  using assms
proof (induction positions getIndex bound faceIndex st rule: buildFaces.induct)
  case (1 positions getIndex bound faceIndex st)
  show ?case
  proof (cases "of_nat faceIndex < bound")
    case False
    with "1.prems" show ?thesis
      by (simp add: buildFaces.simps)
  next
    case True
    obtain r st' where bf: "buildFace positions getIndex st faceIndex = (r, st')"
      by (cases "buildFace positions getIndex st faceIndex")
    from "1.prems" have "undefinedKept (snd (buildFace positions getIndex st faceIndex))"
      by (rule buildFace_undefinedKept)
    then have d: "undefinedKept st'"
      by (simp add: bf)
    show ?thesis
    proof (cases r)
      case (Some e)
      with True bf d show ?thesis
        by (simp add: buildFaces.simps [of positions getIndex bound faceIndex])
    next
      case None
      from "1.IH" [OF True bf [symmetric] None d] True bf None show ?thesis
        by (simp add: buildFaces.simps [of positions getIndex bound faceIndex])
    qed
  qed
qed

lemma buildFaces_mapped:
  assumes "fst (buildFaces positions getIndex bound faceIndex st) = None"
    and "vertexMap st None \<noteq> None \<or>
      (faceIndex \<le> f \<and> of_nat f < bound \<and> getIndex (f * 3 + 2) = None)"
  shows "vertexMap (snd (buildFaces positions getIndex bound faceIndex st)) None \<noteq> None"
  using assms
proof (induction positions getIndex bound faceIndex st rule: buildFaces.induct)
  case (1 positions getIndex bound faceIndex st)
  show ?case
  proof (cases "of_nat faceIndex < bound")
    case False
    have "\<not> (faceIndex \<le> f \<and> of_nat f < bound)"
    proof
      assume "faceIndex \<le> f \<and> of_nat f < bound"
      then have "(of_nat faceIndex :: rat) \<le> of_nat f" and "of_nat f < bound"
        by simp_all
      with False show False by simp
    qed
    with "1.prems"(2) have "vertexMap st None \<noteq> None"
      by blast
    with False show ?thesis
      by (simp add: buildFaces.simps [of positions getIndex bound faceIndex])
  next
    case True
    obtain r st' where bf: "buildFace positions getIndex st faceIndex = (r, st')"
      by (cases "buildFace positions getIndex st faceIndex")
    from "1.prems"(1) True bf have r: "r = None"
      by (cases r) (simp_all add: buildFaces.simps [of positions getIndex bound faceIndex])
    with "1.prems"(1) True bf have f': "fst (buildFaces positions getIndex bound (Suc faceIndex) st') = None"
      by (simp add: buildFaces.simps [of positions getIndex bound faceIndex])
    have "vertexMap st' None \<noteq> None \<or>
      (Suc faceIndex \<le> f \<and> of_nat f < bound \<and> getIndex (f * 3 + 2) = None)"
    proof (cases "vertexMap st None \<noteq> None \<or> (faceIndex = f \<and> getIndex (f * 3 + 2) = None)")
      case True
      then have "vertexMap st None \<noteq> None \<or> getIndex (faceIndex * 3 + 2) = None"
        by auto
      then have "vertexMap (snd (buildFace positions getIndex st faceIndex)) None \<noteq> None"
        by (rule buildFace_mapped)
      then show ?thesis by (simp add: bf)
    next
      case False
      with "1.prems"(2) have "faceIndex \<le> f" "faceIndex \<noteq> f" "of_nat f < bound"
        "getIndex (f * 3 + 2) = None"
        by blast+
      then show ?thesis by simp
    qed
    from "1.IH" [OF True bf [symmetric] r f' this] True bf r show ?thesis
      by (simp add: buildFaces.simps [of positions getIndex bound faceIndex])
  qed
qed

lemma undefinedKept_vertex:
  assumes "undefinedKept st" and "vertexMap st None \<noteq> None"
  shows "\<exists>v \<in> set (vertices (ds st)). vertex_id v = None"
proof -
  from assms(2) obtain k where "vertexMap st None = Some k" by blast
  with assms(1) have "k < length (vertices (ds st))" and "vertex_id (vertices (ds st) ! k) = None"
    by (simp_all add: undefinedKept_iff)
  then show ?thesis
    by (metis nth_mem)
qed

text \<open>
  Claim C9, amended: for a position attribute of \<open>count\<close> positions of at least three
  numbers each and an index buffer (if any) of \<open>count\<close> entries that are indices of
  positions, the vertex merger reads defined numbers only; and when the count the faces
  are read from is a multiple of 3, every array access of the build is within bounds: at
  every side of every face processed \<^verbatim>\<open>getVertexIndex\<close> reads a defined canonical index
  and \<^verbatim>\<open>fromBufferAttribute\<close> three defined numbers at it, and every vertex of the
  store that the build returns has a defined identifier and a defined position. When the
  count is not a multiple of 3, the face loop, bounded by the quotient \<open>count/3\<close>, also
  processes the face \<open>count div 3\<close>, whose third buffer index is read out of range; a
  build that gets through it leaves in the store a vertex whose identifier is
  \<^verbatim>\<open>undefined\<close>.
\<close>

theorem buildFromGeometry_reads:
  fixes ops :: arithmetic and this :: HalfedgeDS and geometry :: BufferGeometry
    and positions :: "real BufferAttribute"
  defines "indexVertexArray \<equiv> computeVerticesIndexArray ops positions (options_tolerance this)"
    and "n \<equiv> bufferCount positions (index geometry)"
  assumes p: "position geometry = Some positions"
    and wp: "wellFormedPositions positions" and wi: "wellFormedIndex positions (index geometry)"
  shows "(\<forall>i<count positions. \<forall>j<3.
      quantized ops (array positions) (shiftMultiplier ops (options_tolerance this)) i j \<noteq> None) \<and>
    (n mod 3 = 0 \<longrightarrow>
      (\<forall>faceIndex i. of_nat faceIndex < nbOfFaces positions (index geometry) \<longrightarrow> i < 3 \<longrightarrow>
        (\<forall>b \<in> {faceIndex * 3 + i, faceIndex * 3 + (i + 1) mod 3}.
           \<exists>i1 x y z. getVertexIndex indexVertexArray (index geometry) b = Some i1 \<and>
             fromBufferAttribute positions (Some i1) = (Some x, Some y, Some z))) \<and>
      (\<forall>v \<in> set (vertices (snd (buildFromGeometry ops this geometry))). definedVertex v)) \<and>
    (n mod 3 \<noteq> 0 \<longrightarrow>
      of_nat (n div 3) < nbOfFaces positions (index geometry) \<and>
      getVertexIndex indexVertexArray (index geometry) (n div 3 * 3 + 2) = None \<and>
      (fst (buildFromGeometry ops this geometry) = None \<longrightarrow>
         (\<exists>v \<in> set (vertices (snd (buildFromGeometry ops this geometry))). vertex_id v = None)))"
proof -
  let ?init = "\<lparr>ds = clear this, halfedgeMap = Map.empty, vertexMap = Map.empty, loopHalfedges = []\<rparr>"
  let ?r = "buildFaces positions (getVertexIndex indexVertexArray (index geometry))
        (nbOfFaces positions (index geometry)) 0 ?init"
  have t: "options_tolerance (clear this) = options_tolerance this"
    by (simp add: clear_def)
  have b: "buildFromGeometry ops this geometry = map_prod id ds ?r"
    unfolding indexVertexArray_def by (rule buildFromGeometry_positions [OF p])
  have merger: "\<forall>i<count positions. \<forall>j<3.
      quantized ops (array positions) (shiftMultiplier ops (options_tolerance this)) i j \<noteq> None"
    using wp by (simp add: quantized_defined)
  have sides: "\<exists>i1 x y z. getVertexIndex indexVertexArray (index geometry) b = Some i1 \<and>
        fromBufferAttribute positions (Some i1) = (Some x, Some y, Some z)"
    if m: "n mod 3 = 0" and f: "of_nat faceIndex < nbOfFaces positions (index geometry)"
      and i: "i < 3" and b: "b \<in> {faceIndex * 3 + i, faceIndex * 3 + (i + 1) mod 3}"
    for faceIndex i b
  proof -
    from f have "3 * faceIndex < n"
      by (simp add: nbOfFaces_test n_def)
    then have "b < n" using m b i by (rule side_index_bound)
    then have "b < bufferCount positions (index geometry)" by (simp add: n_def)
    with wp wi show ?thesis
      unfolding indexVertexArray_def by (rule side_reads_defined)
  qed
  have stored: "\<forall>v \<in> set (vertices (snd (buildFromGeometry ops this geometry))). definedVertex v"
    if m: "n mod 3 = 0"
  proof -
    have "\<forall>v \<in> set (vertices (ds ?init)). definedVertex v"
      by (simp add: clear_def)
    moreover have "\<forall>f i. of_nat f < nbOfFaces positions (index geometry) \<longrightarrow> i < 3 \<longrightarrow>
      (\<forall>b \<in> {f * 3 + i, f * 3 + (i + 1) mod 3}.
        \<exists>i1 x y z. getVertexIndex indexVertexArray (index geometry) b = Some i1 \<and>
          fromBufferAttribute positions (Some i1) = (Some x, Some y, Some z))"
      using sides [OF m] by blast
    ultimately have "\<forall>v \<in> set (vertices (ds (snd ?r))). definedVertex v"
      by (rule buildFaces_defined)
    then show ?thesis
      unfolding b by simp
  qed
  have extra: "of_nat (n div 3) < nbOfFaces positions (index geometry)"
    and undef: "getVertexIndex indexVertexArray (index geometry) (n div 3 * 3 + 2) = None"
    if m: "n mod 3 \<noteq> 0"
  proof -
    from m have "3 * (n div 3) < n" by presburger
    then show "of_nat (n div 3) < nbOfFaces positions (index geometry)"
      by (simp add: nbOfFaces_test n_def)
    from m have "n \<le> n div 3 * 3 + 2" by presburger
    then have "bufferCount positions (index geometry) \<le> n div 3 * 3 + 2" by (simp add: n_def)
    with wi show "getVertexIndex indexVertexArray (index geometry) (n div 3 * 3 + 2) = None"
      unfolding indexVertexArray_def by (rule getVertexIndex_undefined)
  qed
  have kept: "\<exists>v \<in> set (vertices (snd (buildFromGeometry ops this geometry))). vertex_id v = None"
    if m: "n mod 3 \<noteq> 0" and ok: "fst (buildFromGeometry ops this geometry) = None"
  proof -
    from ok have "fst ?r = None"
      unfolding b by simp
    moreover from extra [OF m] undef [OF m]
    have "vertexMap ?init None \<noteq> None \<or>
      (0 \<le> n div 3 \<and> of_nat (n div 3) < nbOfFaces positions (index geometry) \<and>
       getVertexIndex indexVertexArray (index geometry) (n div 3 * 3 + 2) = None)"
      by simp
    ultimately have "vertexMap (snd ?r) None \<noteq> None"
      by (rule buildFaces_mapped)
    moreover have "undefinedKept (snd ?r)"
      by (rule buildFaces_undefinedKept) (simp add: undefinedKept_def)
    ultimately have "\<exists>v \<in> set (vertices (ds (snd ?r))). vertex_id v = None"
      by (rule undefinedKept_vertex [rotated])
    then show ?thesis
      unfolding b by simp
  qed
  show ?thesis
  proof (intro conjI impI)
    show "\<forall>i<count positions. \<forall>j<3.
      quantized ops (array positions) (shiftMultiplier ops (options_tolerance this)) i j \<noteq> None"
      by (rule merger)
    show "\<forall>faceIndex i. of_nat faceIndex < nbOfFaces positions (index geometry) \<longrightarrow> i < 3 \<longrightarrow>
        (\<forall>b \<in> {faceIndex * 3 + i, faceIndex * 3 + (i + 1) mod 3}.
           \<exists>i1 x y z. getVertexIndex indexVertexArray (index geometry) b = Some i1 \<and>
             fromBufferAttribute positions (Some i1) = (Some x, Some y, Some z))"
      if "n mod 3 = 0"
      using sides [OF that] by blast
    show "\<forall>v \<in> set (vertices (snd (buildFromGeometry ops this geometry))). definedVertex v"
      if "n mod 3 = 0"
      using that by (rule stored)
    show "of_nat (n div 3) < nbOfFaces positions (index geometry)" if "n mod 3 \<noteq> 0"
      using that by (rule extra)
    show "getVertexIndex indexVertexArray (index geometry) (n div 3 * 3 + 2) = None"
      if "n mod 3 \<noteq> 0"
      using that by (rule undef)
    show "\<exists>v \<in> set (vertices (snd (buildFromGeometry ops this geometry))). vertex_id v = None"
      if "n mod 3 \<noteq> 0" and "fst (buildFromGeometry ops this geometry) = None"
      using that by (rule kept)
  qed
qed

lemma triangle_indexArray:
  "computeVerticesIndexArray exactArithmetic trianglePositions 1 = [0, 1, 2]"
proof -
  have "snd (foldl (mergeStep exactArithmetic (array trianglePositions) 1) (Map.empty, [])
     [0..<count trianglePositions]) = [0, 1, 2]"
    unfolding trianglePositions_def mergeStep_exact by code_simp
  then show ?thesis
    unfolding computeVerticesIndexArray_def shiftMultiplier_one .
qed

lemma four_indexArray:
  "computeVerticesIndexArray exactArithmetic fourPositions 1 = [0, 1, 2, 3]"
proof -
  have "snd (foldl (mergeStep exactArithmetic (array fourPositions) 1) (Map.empty, [])
     [0..<count fourPositions]) = [0, 1, 2, 3]"
    unfolding fourPositions_def mergeStep_exact by code_simp
  then show ?thesis
    unfolding computeVerticesIndexArray_def shiftMultiplier_one .
qed

lemma triangle_vertices:
  "vertices (ds (snd (buildFaces trianglePositions (getVertexIndex [0, 1, 2] None)
     (nbOfFaces trianglePositions None) 0
     \<lparr>ds = clear emptyStore, halfedgeMap = Map.empty, vertexMap = Map.empty, loopHalfedges = []\<rparr>)))
   \<noteq> []"
  by code_simp

lemma four_fst:
  "fst (buildFaces fourPositions (getVertexIndex [0, 1, 2, 3] None)
     (nbOfFaces fourPositions None) 0
     \<lparr>ds = clear emptyStore, halfedgeMap = Map.empty, vertexMap = Map.empty, loopHalfedges = []\<rparr>)
   = None"
  by code_simp

theorem buildFromGeometry_reads_witness:
  "position \<lparr>position = Some trianglePositions, index = None\<rparr> = Some trianglePositions \<and>
   wellFormedPositions trianglePositions \<and> wellFormedIndex trianglePositions None \<and>
   (0::nat) < count trianglePositions \<and> (2::nat) < 3 \<and>
   quantized exactArithmetic (array trianglePositions) (shiftMultiplier exactArithmetic 1) 0 2 \<noteq>
     None \<and>
   bufferCount trianglePositions None mod 3 = 0 \<and>
   of_nat 0 < nbOfFaces trianglePositions None \<and>
   (\<exists>i1 x y z.
      getVertexIndex (computeVerticesIndexArray exactArithmetic trianglePositions 1) None
        (0 * 3 + 2) = Some i1 \<and>
      fromBufferAttribute trianglePositions (Some i1) = (Some x, Some y, Some z)) \<and>
   vertices (snd (buildFromGeometry exactArithmetic emptyStore
     \<lparr>position = Some trianglePositions, index = None\<rparr>)) \<noteq> [] \<and>
   definedVertex (hd (vertices (snd (buildFromGeometry exactArithmetic emptyStore
     \<lparr>position = Some trianglePositions, index = None\<rparr>)))) \<and>
   position \<lparr>position = Some fourPositions, index = None\<rparr> = Some fourPositions \<and>
   wellFormedPositions fourPositions \<and> wellFormedIndex fourPositions None \<and>
   bufferCount fourPositions None mod 3 \<noteq> 0 \<and>
   of_nat 1 < nbOfFaces fourPositions None \<and>
   getVertexIndex (computeVerticesIndexArray exactArithmetic fourPositions 1) None (1 * 3 + 2) =
     None \<and>
   fst (buildFromGeometry exactArithmetic emptyStore
     \<lparr>position = Some fourPositions, index = None\<rparr>) = None \<and>
   (\<exists>v \<in> set (vertices (snd (buildFromGeometry exactArithmetic emptyStore
      \<lparr>position = Some fourPositions, index = None\<rparr>))). vertex_id v = None)"
proof -
  let ?G = "\<lparr>position = Some trianglePositions, index = None\<rparr>"
  let ?G4 = "\<lparr>position = Some fourPositions, index = None\<rparr>"
  have tol: "options_tolerance emptyStore = 1" by (simp add: emptyStore_def)
  have p: "position ?G = Some trianglePositions" by simp
  have wp: "wellFormedPositions trianglePositions"
    by (simp add: wellFormedPositions_def trianglePositions_def)
  have wi: "wellFormedIndex trianglePositions (index ?G)"
    by (simp add: wellFormedIndex_def)
  have c: "(0::nat) < count trianglePositions"
    by (simp add: trianglePositions_def)
  have m: "bufferCount trianglePositions (index ?G) mod 3 = 0"
    by (simp add: bufferCount_def trianglePositions_def)
  have f: "of_nat 0 < nbOfFaces trianglePositions (index ?G)"
    by (simp add: nbOfFaces_def trianglePositions_def)
  have b: "0 * 3 + 2 \<in> {0 * 3 + 2, 0 * 3 + (2 + 1) mod 3 :: nat}"
    by simp
  have i: "(2::nat) < 3" by simp
  have ne: "vertices (snd (buildFromGeometry exactArithmetic emptyStore ?G)) \<noteq> []"
    unfolding buildFromGeometry_positions [OF p] snd_map_prod tol triangle_indexArray
    using triangle_vertices by simp
  have p4: "position ?G4 = Some fourPositions" by simp
  have wp4: "wellFormedPositions fourPositions"
    by (simp add: wellFormedPositions_def fourPositions_def)
  have wi4: "wellFormedIndex fourPositions (index ?G4)"
    by (simp add: wellFormedIndex_def)
  have m4: "bufferCount fourPositions (index ?G4) mod 3 \<noteq> 0"
    by (simp add: bufferCount_def fourPositions_def)
  have d4: "bufferCount fourPositions (index ?G4) div 3 = 1"
    by (simp add: bufferCount_def fourPositions_def)
  have ok4: "fst (buildFromGeometry exactArithmetic emptyStore ?G4) = None"
    unfolding buildFromGeometry_positions [OF p4] fst_map_prod tol four_indexArray
    using four_fst by simp
  note t = buildFromGeometry_reads [OF p wp wi, of exactArithmetic emptyStore, unfolded tol]
  note t4 = buildFromGeometry_reads [OF p4 wp4 wi4, of exactArithmetic emptyStore, unfolded tol]
  from t c i have q: "quantized exactArithmetic (array trianglePositions)
      (shiftMultiplier exactArithmetic 1) 0 2 \<noteq> None"
    by blast
  from t m f i b have s: "\<exists>i1 x y z.
      getVertexIndex (computeVerticesIndexArray exactArithmetic trianglePositions 1) (index ?G)
        (0 * 3 + 2) = Some i1 \<and>
      fromBufferAttribute trianglePositions (Some i1) = (Some x, Some y, Some z)"
    by blast
  from t m have "\<forall>v \<in> set (vertices (snd (buildFromGeometry exactArithmetic emptyStore ?G))).
      definedVertex v"
    by blast
  with ne have d: "definedVertex (hd (vertices (snd (buildFromGeometry exactArithmetic emptyStore ?G))))"
    by simp
  from t4 m4 have e4: "of_nat 1 < nbOfFaces fourPositions (index ?G4)"
    and u4: "getVertexIndex (computeVerticesIndexArray exactArithmetic fourPositions 1) (index ?G4)
      (1 * 3 + 2) = None"
    and k4: "fst (buildFromGeometry exactArithmetic emptyStore ?G4) = None \<longrightarrow>
      (\<exists>v \<in> set (vertices (snd (buildFromGeometry exactArithmetic emptyStore ?G4))). vertex_id v = None)"
    unfolding d4 by blast+
  from k4 ok4
  have v4: "\<exists>v \<in> set (vertices (snd (buildFromGeometry exactArithmetic emptyStore ?G4))). vertex_id v = None"
    by (rule mp)
  have sel: "index ?G = None" "index ?G4 = None" by simp_all
  from p wp wi c i q m f s ne d p4 wp4 wi4 m4 e4 u4 ok4 v4 show ?thesis
    unfolding sel by (intro conjI)
qed

text \<open>
  Claim C9, as stated: a count that is a multiple of 3 puts every array access within
  bounds. With three positions and the index buffer \<open>[0, 1, 5]\<close>, of count 3, the first
  face is processed, and its third corner reads the canonical-index array at \<open>5\<close>, out of
  range. With three positions of two numbers each, of count 3, the vertex merger reads
  the position array at \<open>6\<close>, \<open>7\<close> and \<open>8\<close>, out of range, and the hash key of the third
  position is \<^verbatim>\<open>NaNNaNNaN\<close>.
\<close>

theorem multiple_of_3_out_of_range:
  "bufferCount trianglePositions (Some strayIndex) mod 3 = 0 \<and>
   of_nat 0 < nbOfFaces trianglePositions (Some strayIndex) \<and>
   getVertexIndex (computeVerticesIndexArray exactArithmetic trianglePositions 1)
     (Some strayIndex) (0 * 3 + 2) = None \<and>
   bufferCount flatPositions None mod 3 = 0 \<and>
   2 < count flatPositions \<and>
   quantized exactArithmetic (array flatPositions) (shiftMultiplier exactArithmetic 1) 2 0 = None \<and>
   vertexHash exactArithmetic (array flatPositions) (shiftMultiplier exactArithmetic 1) 2 =
     ''NaNNaNNaN''"
proof -
  have "length (computeVerticesIndexArray exactArithmetic trianglePositions 1) = 3"
    by (simp add: computeVerticesIndexArray_length trianglePositions_def)
  then have "getVertexIndex (computeVerticesIndexArray exactArithmetic trianglePositions 1)
     (Some strayIndex) (0 * 3 + 2) = None"
    by (simp add: getVertexIndex_def array_get_def strayIndex_def)
  moreover have "quantized exactArithmetic (array flatPositions)
      (shiftMultiplier exactArithmetic 1) 2 0 = None"
    by (simp add: quantized_def array_get_def flatPositions_def)
  moreover have "vertexHash exactArithmetic (array flatPositions)
      (shiftMultiplier exactArithmetic 1) 2 = ''NaNNaNNaN''"
    by (simp add: vertexHash_def quantized_def array_get_def number_toString_def
        flatPositions_def Let_def)
  ultimately show ?thesis
    by (simp add: bufferCount_def nbOfFaces_def strayIndex_def flatPositions_def)
qed

section \<open>The store after a failed build\<close>

lemma length_setOutgoing [simp]: "length (setOutgoing vs v h) = length vs"
  by (simp add: setOutgoing_def split: option.splits)

lemma getVertex_inv:
  assumes "build_inv st"
  shows "build_inv (snd (getVertex positions i st))"
    and "vertices (ds (snd (getVertex positions i st))) \<noteq> []"
proof -
  show "build_inv (snd (getVertex positions i st))"
    using assms
    by (auto simp: build_inv_def getVertex_def addVertex_def Let_def less_Suc_eq
        split: option.splits)
  show "vertices (ds (snd (getVertex positions i st))) \<noteq> []"
    using assms
    by (auto simp: build_inv_def getVertex_def addVertex_def Let_def split: option.splits)
qed

lemma addEdge_inv:
  "faces (fst (addEdge struct v1 v2)) = faces struct"
  "length (vertices (fst (addEdge struct v1 v2))) = length (vertices struct)"
  "set (halfedges (fst (addEdge struct v1 v2))) \<subseteq>
     set (halfedges struct) \<union> {x. he_face x = None}"
  by (auto simp: addEdge_def Let_def)

lemma buildSide_inv:
  assumes "build_inv st"
  shows "build_inv (buildSide positions getIndex faceIndex st i)"
    and "vertices (ds (buildSide positions getIndex faceIndex st i)) \<noteq> []"
proof -
  let ?i1 = "getIndex (faceIndex * 3 + i)"
  let ?i2 = "getIndex (faceIndex * 3 + (i + 1) mod 3)"
  obtain v1 st1 where g1: "getVertex positions ?i1 st = (v1, st1)"
    by (cases "getVertex positions ?i1 st")
  obtain v2 st2 where g2: "getVertex positions ?i2 st1 = (v2, st2)"
    by (cases "getVertex positions ?i2 st1")
  have i1: "build_inv st1"
    using getVertex_inv(1) [OF assms, of positions ?i1] unfolding g1 by simp
  have i2: "build_inv st2" and ne: "vertices (ds st2) \<noteq> []"
    using getVertex_inv [OF i1, of positions ?i2] unfolding g2 by simp_all
  obtain struct h1 where e: "addEdge (ds st2) v1 v2 = (struct, h1)"
    by (cases "addEdge (ds st2) v1 v2")
  have s: "faces struct = faces (ds st2)" "length (vertices struct) = length (vertices (ds st2))"
    "set (halfedges struct) \<subseteq> set (halfedges (ds st2)) \<union> {x. he_face x = None}"
    using addEdge_inv [of "ds st2" v1 v2] unfolding e by simp_all
  have i3: "build_inv (st2\<lparr>ds := struct, halfedgeMap := hm, loopHalfedges := l\<rparr>)" for hm l
    using i2 s by (auto simp: build_inv_def)
  have ne3: "vertices struct \<noteq> []"
    using ne s(2) by (metis length_0_conv)
  have i4: "build_inv (st2\<lparr>loopHalfedges := l\<rparr>)" for l
    using i2 by (simp add: build_inv_def)
  show "build_inv (buildSide positions getIndex faceIndex st i)"
    unfolding buildSide_def Let_def g1 g2 prod.case e
    by (simp add: i3 i4 split: option.splits)
  show "vertices (ds (buildSide positions getIndex faceIndex st i)) \<noteq> []"
    unfolding buildSide_def Let_def g1 g2 prod.case e
    by (simp add: ne ne3 split: option.splits)
qed

lemma hasFace_set: "hasFace hs h \<Longrightarrow> hs \<noteq> [] \<and> (\<exists>x \<in> set hs. he_face x \<noteq> None)"
  by (auto simp: hasFace_def array_get_def split: if_splits)

lemma buildFace_inv:
  assumes "build_inv st"
  shows "buildFace positions getIndex st faceIndex = (Some e, st') \<Longrightarrow>
      faces (ds st') \<noteq> [] \<and> halfedges (ds st') \<noteq> [] \<and> vertices (ds st') \<noteq> []"
    and "buildFace positions getIndex st faceIndex = (None, st') \<Longrightarrow> build_inv st'"
proof -
  let ?st0 = "st\<lparr>loopHalfedges := []\<rparr>"
  let ?st1 = "buildSide positions getIndex faceIndex ?st0 0"
  let ?st2 = "buildSide positions getIndex faceIndex ?st1 1"
  let ?st3 = "buildSide positions getIndex faceIndex ?st2 2"
  have i0: "build_inv ?st0" using assms by (simp add: build_inv_def)
  have i3: "build_inv ?st3" and ne: "vertices (ds ?st3) \<noteq> []"
    by (intro buildSide_inv i0)+
  have fold: "foldl (buildSide positions getIndex faceIndex) ?st0 [0, 1, 2] = ?st3"
    by simp
  {
    assume "buildFace positions getIndex st faceIndex = (Some e, st')"
    then have st': "st' = ?st3" and "addFace (ds ?st3) (loopHalfedges ?st3) = Inl e"
      unfolding buildFace_def Let_def fold by (auto split: sum.splits prod.splits)
    then obtain h where "hasFace (halfedges (ds ?st3)) h"
      by (auto simp: addFace_def Let_def split: if_splits)
    then have "halfedges (ds ?st3) \<noteq> []" "\<exists>x \<in> set (halfedges (ds ?st3)). he_face x \<noteq> None"
      using hasFace_set by blast+
    with i3 have "faces (ds ?st3) \<noteq> []" "halfedges (ds ?st3) \<noteq> []"
      by (auto simp: build_inv_def)
    with ne show "faces (ds st') \<noteq> [] \<and> halfedges (ds st') \<noteq> [] \<and> vertices (ds st') \<noteq> []"
      unfolding st' by simp
  }
  {
    assume "buildFace positions getIndex st faceIndex = (None, st')"
    then obtain struct f where a: "addFace (ds ?st3) (loopHalfedges ?st3) = Inr (struct, f)"
      and st': "st' = ?st3\<lparr>ds := struct\<lparr>faces := (faces struct)
                [f := (faces struct ! f)\<lparr>face_id := Some faceIndex\<rparr>]\<rparr>\<rparr>"
      unfolding buildFace_def Let_def fold by (auto split: sum.splits prod.splits)
    from a have "faces struct \<noteq> []" "vertices struct = vertices (ds ?st3)"
      by (auto simp: addFace_def Let_def split: if_splits)
    with i3 show "build_inv st'"
      unfolding st' by (simp add: build_inv_def)
  }
qed

lemma buildFaces_failure:
  assumes "build_inv st" "buildFaces positions getIndex bound faceIndex st = (Some e, st')"
  shows "faces (ds st') \<noteq> [] \<and> halfedges (ds st') \<noteq> [] \<and> vertices (ds st') \<noteq> []"
  using assms
proof (induction positions getIndex bound faceIndex st rule: buildFaces.induct)
  case (1 positions getIndex bound faceIndex st)
  show ?case
  proof (cases "of_nat faceIndex < bound")
    case False
    with "1.prems" show ?thesis by (simp add: buildFaces.simps)
  next
    case True
    obtain r st1 where bf: "buildFace positions getIndex st faceIndex = (r, st1)"
      by (cases "buildFace positions getIndex st faceIndex")
    show ?thesis
    proof (cases r)
      case None
      with bf "1.prems"(1) have "build_inv st1"
        using buildFace_inv(2) by blast
      moreover from True bf None "1.prems"(2)
      have "buildFaces positions getIndex bound (Suc faceIndex) st1 = (Some e, st')"
        by (simp add: buildFaces.simps [of _ _ _ faceIndex])
      ultimately show ?thesis
        using "1.IH" True bf None by simp
    next
      case (Some e')
      with True bf "1.prems"(2) have "e' = e" "st1 = st'"
        by (simp_all add: buildFaces.simps [of _ _ _ faceIndex])
      with Some bf "1.prems"(1) show ?thesis
        using buildFace_inv(1) by blast
    qed
  qed
qed

text \<open>
  Claim C4, amended: a build that fails for want of a position attribute leaves the three
  collections empty, as the clear at its start made them. A build that fails while adding
  a face is not undone: the store keeps what was added before the failure, and none of
  the three collections is empty.
\<close>

theorem buildFromGeometry_failure_store:
  "(position geometry = None \<longrightarrow>
      fst (buildFromGeometry ops this geometry) \<noteq> None \<and>
      faces (snd (buildFromGeometry ops this geometry)) = [] \<and>
      vertices (snd (buildFromGeometry ops this geometry)) = [] \<and>
      halfedges (snd (buildFromGeometry ops this geometry)) = []) \<and>
   (position geometry \<noteq> None \<longrightarrow> fst (buildFromGeometry ops this geometry) \<noteq> None \<longrightarrow>
      faces (snd (buildFromGeometry ops this geometry)) \<noteq> [] \<and>
      vertices (snd (buildFromGeometry ops this geometry)) \<noteq> [] \<and>
      halfedges (snd (buildFromGeometry ops this geometry)) \<noteq> [])"
proof (intro conjI impI)
  assume "position geometry = None"
  then show "fst (buildFromGeometry ops this geometry) \<noteq> None"
    and "faces (snd (buildFromGeometry ops this geometry)) = []"
    and "vertices (snd (buildFromGeometry ops this geometry)) = []"
    and "halfedges (snd (buildFromGeometry ops this geometry)) = []"
    by (simp_all add: buildFromGeometry_def clear_def)
next
  assume "position geometry \<noteq> None" and f: "fst (buildFromGeometry ops this geometry) \<noteq> None"
  then obtain positions where p: "position geometry = Some positions" by blast
  let ?init = "\<lparr>ds = clear this, halfedgeMap = Map.empty, vertexMap = Map.empty, loopHalfedges = []\<rparr>"
  let ?r = "buildFaces positions
        (getVertexIndex (computeVerticesIndexArray ops positions (options_tolerance this)) (index geometry))
        (nbOfFaces positions (index geometry)) 0 ?init"
  have b: "buildFromGeometry ops this geometry = map_prod id ds ?r"
    by (rule buildFromGeometry_positions [OF p])
  with f obtain e st' where r: "?r = (Some e, st')"
    by (cases ?r) auto
  have "build_inv ?init"
    by (simp add: build_inv_def clear_def)
  from buildFaces_failure [OF this r]
  show "faces (snd (buildFromGeometry ops this geometry)) \<noteq> []"
    and "vertices (snd (buildFromGeometry ops this geometry)) \<noteq> []"
    and "halfedges (snd (buildFromGeometry ops this geometry)) \<noteq> []"
    unfolding b r by simp_all
qed

lemma doubled_merge_loop:
  "snd (foldl (mergeStep exactArithmetic (array doubledTrianglePositions) 1) (Map.empty, [])
     [0..<count doubledTrianglePositions]) = [0, 1, 2, 0, 1, 2]"
  unfolding doubledTrianglePositions_def mergeStep_exact
  by code_simp

lemma doubled_indexArray:
  "computeVerticesIndexArray exactArithmetic doubledTrianglePositions 1 = [0, 1, 2, 0, 1, 2]"
  unfolding computeVerticesIndexArray_def shiftMultiplier_one by (rule doubled_merge_loop)

lemma doubled_build:
  "buildFromGeometry exactArithmetic emptyStore \<lparr>position = Some doubledTrianglePositions, index = None\<rparr> =
   map_prod id ds (buildFaces doubledTrianglePositions (getVertexIndex [0, 1, 2, 0, 1, 2] None)
     (nbOfFaces doubledTrianglePositions None) 0 
     \<lparr>ds = clear emptyStore, halfedgeMap = Map.empty, vertexMap = Map.empty, loopHalfedges = []\<rparr>)"
proof -
  have t: "options_tolerance emptyStore = 1" by (simp add: emptyStore_def)
  show ?thesis
    by (simp add: buildFromGeometry_positions t doubled_indexArray)
qed

lemma doubled_fst:
  "fst (buildFaces doubledTrianglePositions (getVertexIndex [0, 1, 2, 0, 1, 2] None)
     (nbOfFaces doubledTrianglePositions None) 0 
     \<lparr>ds = clear emptyStore, halfedgeMap = Map.empty, vertexMap = Map.empty, loopHalfedges = []\<rparr>)
   = Some (Thrown ''NonManifoldConstructionError'' ''halfedge already bound to a face'')"
  by code_simp

lemma doubled_sizes:
  "length (faces (ds (snd (buildFaces doubledTrianglePositions (getVertexIndex [0, 1, 2, 0, 1, 2] None)
     (nbOfFaces doubledTrianglePositions None) 0 
     \<lparr>ds = clear emptyStore, halfedgeMap = Map.empty, vertexMap = Map.empty, loopHalfedges = []\<rparr>)))) = 1"
  "length (vertices (ds (snd (buildFaces doubledTrianglePositions (getVertexIndex [0, 1, 2, 0, 1, 2] None)
     (nbOfFaces doubledTrianglePositions None) 0 
     \<lparr>ds = clear emptyStore, halfedgeMap = Map.empty, vertexMap = Map.empty, loopHalfedges = []\<rparr>)))) = 3"
  "length (halfedges (ds (snd (buildFaces doubledTrianglePositions (getVertexIndex [0, 1, 2, 0, 1, 2] None)
     (nbOfFaces doubledTrianglePositions None) 0 
     \<lparr>ds = clear emptyStore, halfedgeMap = Map.empty, vertexMap = Map.empty, loopHalfedges = []\<rparr>)))) = 6"
  by code_simp+

text \<open>
  Claim C4, as stated: every failing build leaves the three collections empty. The same
  triangle twice: the second face finds its three halfedges bound to the first face,
  \<^verbatim>\<open>addFace\<close> fails, and the store holds one face, three vertices and six halfedges.
\<close>

theorem doubled_triangle_partial_store:
  "fst (buildFromGeometry exactArithmetic emptyStore \<lparr>position = Some doubledTrianglePositions, index = None\<rparr>) =
     Some (Thrown ''NonManifoldConstructionError'' ''halfedge already bound to a face'') \<and>
   length (faces (snd (buildFromGeometry exactArithmetic emptyStore
     \<lparr>position = Some doubledTrianglePositions, index = None\<rparr>))) = 1 \<and>
   length (vertices (snd (buildFromGeometry exactArithmetic emptyStore
     \<lparr>position = Some doubledTrianglePositions, index = None\<rparr>))) = 3 \<and>
   length (halfedges (snd (buildFromGeometry exactArithmetic emptyStore
     \<lparr>position = Some doubledTrianglePositions, index = None\<rparr>))) = 6"
  unfolding doubled_build fst_map_prod snd_map_prod id_apply doubled_fst doubled_sizes by simp

theorem buildFromGeometry_failure_store_witness:
  "position \<lparr>position = None, index = None\<rparr> = None \<and>
   fst (buildFromGeometry exactArithmetic emptyStore \<lparr>position = None, index = None\<rparr>) \<noteq> None \<and>
   faces (snd (buildFromGeometry exactArithmetic emptyStore \<lparr>position = None, index = None\<rparr>)) = [] \<and>
   vertices (snd (buildFromGeometry exactArithmetic emptyStore \<lparr>position = None, index = None\<rparr>)) = [] \<and>
   halfedges (snd (buildFromGeometry exactArithmetic emptyStore \<lparr>position = None, index = None\<rparr>)) = [] \<and>
   position \<lparr>position = Some doubledTrianglePositions, index = None\<rparr> \<noteq> None \<and>
   fst (buildFromGeometry exactArithmetic emptyStore \<lparr>position = Some doubledTrianglePositions, index = None\<rparr>) \<noteq> None \<and>
   faces (snd (buildFromGeometry exactArithmetic emptyStore
     \<lparr>position = Some doubledTrianglePositions, index = None\<rparr>)) \<noteq> [] \<and>
   vertices (snd (buildFromGeometry exactArithmetic emptyStore
     \<lparr>position = Some doubledTrianglePositions, index = None\<rparr>)) \<noteq> [] \<and>
   halfedges (snd (buildFromGeometry exactArithmetic emptyStore
     \<lparr>position = Some doubledTrianglePositions, index = None\<rparr>)) \<noteq> []"
proof -
  have f: "fst (buildFromGeometry exactArithmetic emptyStore
      \<lparr>position = Some doubledTrianglePositions, index = None\<rparr>) \<noteq> None"
    unfolding doubled_build fst_map_prod id_apply doubled_fst by simp
  show ?thesis
    using f
      buildFromGeometry_failure_store
        [of "\<lparr>position = None, index = None\<rparr>" exactArithmetic emptyStore]
      buildFromGeometry_failure_store
        [of "\<lparr>position = Some doubledTrianglePositions, index = None\<rparr>" exactArithmetic
          emptyStore]
    by simp
qed

section \<open>The loops of a store\<close>

lemma iterNext_add:
  "iterNext hs (j + k) h = (case iterNext hs j h of None \<Rightarrow> None | Some x \<Rightarrow> iterNext hs k x)"
  by (induction j arbitrary: h) (simp_all split: option.splits)

lemma iterNext_Suc_right:
  "iterNext hs (Suc j) h = (case iterNext hs j h of None \<Rightarrow> None | Some x \<Rightarrow> nextOf hs x)"
  using iterNext_add [of hs j 1 h] by (simp split: option.splits)

lemma iterNext_period:
  assumes "iterNext hs p h = Some h"
  shows "iterNext hs (p * q + r) h = iterNext hs r h"
proof (induction q)
  case 0
  show ?case by simp
next
  case (Suc q)
  have "p * Suc q + r = p + (p * q + r)" by simp
  then have "iterNext hs (p * Suc q + r) h = iterNext hs (p + (p * q + r)) h"
    by (rule arg_cong)
  also have "\<dots> = iterNext hs (p * q + r) h"
    by (simp only: iterNext_add [of hs p] assms option.case)
  finally show ?case using Suc.IH by simp
qed

lemma orbit_refl: "h \<in> orbit hs h"
  unfolding orbit_def by (auto intro: exI [of _ 0])

lemma orbit_trans: "x \<in> orbit hs h \<Longrightarrow> y \<in> orbit hs x \<Longrightarrow> y \<in> orbit hs h"
proof -
  assume "x \<in> orbit hs h" "y \<in> orbit hs x"
  then obtain j k where "iterNext hs j h = Some x" "iterNext hs k x = Some y"
    by (auto simp: orbit_def)
  then have "iterNext hs (j + k) h = Some y"
    by (simp add: iterNext_add)
  then show ?thesis unfolding orbit_def by blast
qed

lemma orbit_sym:
  assumes "closed hs h" "x \<in> orbit hs h"
  shows "h \<in> orbit hs x"
proof -
  from assms(1) obtain p where p: "0 < p" "iterNext hs p h = Some h"
    by (auto simp: closed_def)
  from assms(2) obtain j where j: "iterNext hs j h = Some x"
    by (auto simp: orbit_def)
  have "j \<le> p * j" using p(1) by simp
  then have "p * j = j + (p * j - j)" by simp
  then have "iterNext hs (j + (p * j - j)) h = iterNext hs (p * j + 0) h" by simp
  also have "\<dots> = Some h"
    using iterNext_period [OF p(2), of j 0] by simp
  finally have "iterNext hs (p * j - j) x = Some h"
    by (simp add: iterNext_add j)
  then show ?thesis unfolding orbit_def by blast
qed

lemma orbit_subset: "x \<in> orbit hs h \<Longrightarrow> orbit hs x \<subseteq> orbit hs h"
  using orbit_trans by blast


text \<open>The run of \<open>nextLoop\<close> from a closed halfedge.\<close>

lemma nextLoop_from_run:
  assumes p: "0 < p" "iterNext hs p h = Some h"
    and least: "\<And>k. 0 < k \<Longrightarrow> iterNext hs k h = Some h \<Longrightarrow> p \<le> k"
  shows "j < p \<Longrightarrow> iterNext hs j h = Some x \<Longrightarrow>
    \<exists>cyc. nextLoop_from hs h x acc = Some (Inr (acc @ cyc)) \<and>
      set cyc = {y. \<exists>i. j \<le> i \<and> i < p \<and> iterNext hs i h = Some y}"
proof (induction "p - j" arbitrary: j x acc)
  case 0
  then show ?case by simp
next
  case (Suc d)
  have pj: "Suc j + (p - Suc j) = p" using Suc.prems(1) by simp
  have "iterNext hs (Suc j + (p - Suc j)) h =
      (case iterNext hs (Suc j) h of None \<Rightarrow> None | Some x \<Rightarrow> iterNext hs (p - Suc j) x)"
    by (rule iterNext_add)
  then have "iterNext hs p h =
      (case iterNext hs (Suc j) h of None \<Rightarrow> None | Some x \<Rightarrow> iterNext hs (p - Suc j) x)"
    unfolding pj .
  with p(2) have "iterNext hs (Suc j) h \<noteq> None"
    by (cases "iterNext hs (Suc j) h") (simp_all del: iterNext.simps)
  then obtain m where m: "iterNext hs (Suc j) h = Some m" by blast
  then have nx: "nextOf hs x = Some m"
    using Suc.prems(2) by (simp add: iterNext_Suc_right del: iterNext.simps)
  show ?case
  proof (cases "m = h")
    case True
    with m have "p \<le> Suc j" by (intro least) simp_all
    with Suc.prems(1) have pj: "p = Suc j" by simp
    have "{y. \<exists>i. j \<le> i \<and> i < p \<and> iterNext hs i h = Some y} = {x}"
    proof -
      have "(\<exists>i. j \<le> i \<and> i < p \<and> iterNext hs i h = Some y) \<longleftrightarrow> y = x" for y
      proof
        assume "\<exists>i. j \<le> i \<and> i < p \<and> iterNext hs i h = Some y"
        then obtain i where "j \<le> i" "i < p" "iterNext hs i h = Some y" by blast
        with pj have "i = j" by simp
        with \<open>iterNext hs i h = Some y\<close> Suc.prems(2) show "y = x" by simp
      next
        assume "y = x"
        with Suc.prems show "\<exists>i. j \<le> i \<and> i < p \<and> iterNext hs i h = Some y" by blast
      qed
      then show ?thesis by blast
    qed
    moreover have "nextLoop_from hs h x acc = Some (Inr (acc @ [x]))"
      by (subst nextLoop_from.simps) (simp add: nx True)
    ultimately show ?thesis by auto
  next
    case False
    with m p(2) have "Suc j \<noteq> p" by auto
    with Suc.prems(1) have lt: "Suc j < p" by simp
    have d: "d = p - Suc j" using Suc.hyps(2) by simp
    from Suc.hyps(1) [OF d lt m, of "acc @ [x]"] obtain cyc where
      c: "nextLoop_from hs h m (acc @ [x]) = Some (Inr ((acc @ [x]) @ cyc))"
        "set cyc = {y. \<exists>i. Suc j \<le> i \<and> i < p \<and> iterNext hs i h = Some y}"
      by blast
    have run: "nextLoop_from hs h x acc = Some (Inr (acc @ (x # cyc)))"
      by (subst nextLoop_from.simps) (simp add: nx False c(1))
    have "set (x # cyc) = {y. \<exists>i. j \<le> i \<and> i < p \<and> iterNext hs i h = Some y}"
    proof -
      have "(\<exists>i. j \<le> i \<and> i < p \<and> iterNext hs i h = Some y) \<longleftrightarrow>
          y = x \<or> (\<exists>i. Suc j \<le> i \<and> i < p \<and> iterNext hs i h = Some y)" for y
      proof
        assume "\<exists>i. j \<le> i \<and> i < p \<and> iterNext hs i h = Some y"
        then obtain i where i: "j \<le> i" "i < p" "iterNext hs i h = Some y" by blast
        show "y = x \<or> (\<exists>i. Suc j \<le> i \<and> i < p \<and> iterNext hs i h = Some y)"
        proof (cases "i = j")
          case True
          with i(3) Suc.prems(2) show ?thesis by simp
        next
          case False
          with i(1) have "Suc j \<le> i" by simp
          with i(2,3) show ?thesis by blast
        qed
      next
        assume "y = x \<or> (\<exists>i. Suc j \<le> i \<and> i < p \<and> iterNext hs i h = Some y)"
        then show "\<exists>i. j \<le> i \<and> i < p \<and> iterNext hs i h = Some y"
        proof
          assume "y = x"
          with Suc.prems show ?thesis by blast
        next
          assume "\<exists>i. Suc j \<le> i \<and> i < p \<and> iterNext hs i h = Some y"
          then obtain i where "Suc j \<le> i" "i < p" "iterNext hs i h = Some y" by blast
          then have "j \<le> i \<and> i < p \<and> iterNext hs i h = Some y" by simp
          then show ?thesis by blast
        qed
      qed
      then show ?thesis unfolding c(2) [symmetric] using c(2) by auto
    qed
    with run show ?thesis by blast
  qed
qed

lemma nextLoop_orbit:
  assumes "closed hs h"
  shows "\<exists>cyc. nextLoop hs h = Some (Inr cyc) \<and> set cyc = orbit hs h"
proof -
  define p where "p = (LEAST k. 0 < k \<and> iterNext hs k h = Some h)"
  from assms obtain k0 where "0 < k0 \<and> iterNext hs k0 h = Some h"
    by (auto simp: closed_def)
  then have "0 < p \<and> iterNext hs p h = Some h"
    unfolding p_def by (rule LeastI)
  then have p: "0 < p" "iterNext hs p h = Some h" by simp_all
  have least: "p \<le> k" if "0 < k" "iterNext hs k h = Some h" for k
    unfolding p_def using that by (intro Least_le) simp
  have "iterNext hs 0 h = Some h" by simp
  from nextLoop_from_run [OF p least p(1) this, of "[]"] obtain cyc where
    c: "nextLoop hs h = Some (Inr cyc)"
      "set cyc = {y. \<exists>i. i < p \<and> iterNext hs i h = Some y}"
    by (auto simp: nextLoop_def)
  have "{y. \<exists>i. i < p \<and> iterNext hs i h = Some y} = orbit hs h"
  proof (intro set_eqI iffI)
    fix y assume "y \<in> {y. \<exists>i. i < p \<and> iterNext hs i h = Some y}"
    then show "y \<in> orbit hs h" unfolding orbit_def by blast
  next
    fix y assume "y \<in> orbit hs h"
    then obtain k where k: "iterNext hs k h = Some y" unfolding orbit_def by blast
    have "iterNext hs (p * (k div p) + k mod p) h = iterNext hs (k mod p) h"
      by (rule iterNext_period [OF p(2)])
    with k have "iterNext hs (k mod p) h = Some y" by simp
    moreover have "k mod p < p" using p(1) by simp
    ultimately show "y \<in> {y. \<exists>i. i < p \<and> iterNext hs i h = Some y}" by blast
  qed
  with c show ?thesis by simp
qed


lemma apart_snoc:
  assumes "apart hs acc" "h \<notin> set acc"
    and "\<And>r. r \<in> set acc \<Longrightarrow> h \<notin> orbit hs r"
    and "\<And>r. r \<in> set acc \<Longrightarrow> r \<notin> orbit hs h"
  shows "apart hs (acc @ [h])"
proof -
  have d: "distinct (acc @ [h])"
    using assms(1,2) by (simp add: apart_def)
  have "r' \<notin> orbit hs r" if "r \<in> set (acc @ [h])" "r' \<in> set (acc @ [h])" "r \<noteq> r'" for r r'
  proof (cases "r = h")
    case True
    with that have "r' \<in> set acc" by auto
    with True assms(4) show ?thesis by blast
  next
    case False
    with that(1) have r: "r \<in> set acc" by auto
    show ?thesis
    proof (cases "r' = h")
      case True
      with r assms(3) show ?thesis by blast
    next
      case False
      with that(2) have "r' \<in> set acc" by auto
      with r that(3) assms(1) show ?thesis unfolding apart_def by blast
    qed
  qed
  with d show ?thesis unfolding apart_def by blast
qed

lemma loops_from_partition:
  assumes "\<forall>h \<in> set todo. closed hs h" "\<forall>r \<in> set acc. closed hs r"
    and "handled = (\<Union>r \<in> set acc. orbit hs r)" "apart hs acc"
  shows "\<exists>reps. loops_from hs todo handled acc = Some (Inr reps) \<and> apart hs reps \<and>
    (\<forall>r \<in> set reps. closed hs r) \<and>
    (\<Union>r \<in> set reps. orbit hs r) = handled \<union> (\<Union>h \<in> set todo. orbit hs h)"
  using assms
proof (induction todo arbitrary: handled acc)
  case Nil
  then show ?case by simp
next
  case (Cons h rest)
  have rest: "\<forall>h \<in> set rest. closed hs h" and h: "closed hs h"
    using Cons.prems(1) by simp_all
  have split: "(\<Union>x \<in> set (h # rest). orbit hs x) = orbit hs h \<union> (\<Union>x \<in> set rest. orbit hs x)"
    by simp
  show ?case
  proof (cases "h \<in> handled")
    case True
    then obtain r where "r \<in> set acc" "h \<in> orbit hs r"
      using Cons.prems(3) by blast
    then have sub: "orbit hs h \<subseteq> handled"
      using orbit_subset [of h hs r] Cons.prems(3) by blast
    have run: "loops_from hs (h # rest) handled acc = loops_from hs rest handled acc"
      using True by simp
    have un: "handled \<union> (\<Union>x \<in> set (h # rest). orbit hs x) =
        handled \<union> (\<Union>x \<in> set rest. orbit hs x)"
      unfolding split using sub by blast
    show ?thesis
      unfolding run un by (rule Cons.IH [OF rest Cons.prems(2,3,4)])
  next
    case False
    from nextLoop_orbit [OF h] obtain cyc where
      cyc: "nextLoop hs h = Some (Inr cyc)" "set cyc = orbit hs h"
      by blast
    have acc': "\<forall>r \<in> set (acc @ [h]). closed hs r"
      using Cons.prems(2) h by simp
    have handled': "handled \<union> set cyc = (\<Union>r \<in> set (acc @ [h]). orbit hs r)"
      unfolding cyc(2) Cons.prems(3) by simp blast
    have out: "h \<notin> orbit hs r" if "r \<in> set acc" for r
      using False Cons.prems(3) that by blast
    have notin: "h \<notin> set acc"
      using out orbit_refl [of h hs] by blast
    have bwd: "r \<notin> orbit hs h" if "r \<in> set acc" for r
      using orbit_sym [OF h, of r] out [OF that] by blast
    have apart': "apart hs (acc @ [h])"
      using Cons.prems(4) notin out bwd by (rule apart_snoc)
    have run: "loops_from hs (h # rest) handled acc =
        loops_from hs rest (handled \<union> set cyc) (acc @ [h])"
      using False cyc(1) by simp
    have un: "handled \<union> (\<Union>x \<in> set (h # rest). orbit hs x) =
        (handled \<union> set cyc) \<union> (\<Union>x \<in> set rest. orbit hs x)"
      unfolding split cyc(2) by blast
    show ?thesis
      unfolding run un by (rule Cons.IH [OF rest acc' handled' apart'])
  qed
qed


lemma inNextLoop_orbit:
  assumes "closed hs r"
  shows "inNextLoop hs r h \<longleftrightarrow> h \<in> orbit hs r"
proof -
  from nextLoop_orbit [OF assms] obtain cyc where
    c: "nextLoop hs r = Some (Inr cyc)" "set cyc = orbit hs r"
    by blast
  show ?thesis
    unfolding inNextLoop_def c(1) by (simp add: c(2))
qed

text \<open>
  Claim C3: on a store with the loop-closure invariant, \<^verbatim>\<open>loops()\<close> returns, and every
  halfedge of the store is in the \<^verbatim>\<open>next\<close>-loop of exactly one of the representatives
  returned.
\<close>

theorem loops_partition:
  assumes "loopClosure (halfedges this)"
  shows "\<exists>reps. loops this = Some (Inr reps) \<and>
    (\<forall>h<length (halfedges this). \<exists>!i. i < length reps \<and> inNextLoop (halfedges this) (reps ! i) h)"
proof -
  let ?hs = "halfedges this"
  have todo: "\<forall>h \<in> set [0..<length ?hs]. closed ?hs h"
    using assms by (simp add: loopClosure_def)
  have e1: "\<forall>r \<in> set []. closed ?hs r" by simp
  have e2: "{} = (\<Union>r \<in> set []. orbit ?hs r)" by simp
  have e3: "apart ?hs []" by (simp add: apart_def)
  have "\<exists>reps. loops_from ?hs [0..<length ?hs] {} [] = Some (Inr reps) \<and> apart ?hs reps \<and>
    (\<forall>r \<in> set reps. closed ?hs r) \<and>
    (\<Union>r \<in> set reps. orbit ?hs r) = {} \<union> (\<Union>h \<in> set [0..<length ?hs]. orbit ?hs h)"
    by (rule loops_from_partition [OF todo e1 e2 e3])
  then obtain reps where
    run: "loops_from ?hs [0..<length ?hs] {} [] = Some (Inr reps)" and ap: "apart ?hs reps"
    and cl: "\<forall>r \<in> set reps. closed ?hs r"
    and un: "(\<Union>r \<in> set reps. orbit ?hs r) = {} \<union> (\<Union>h \<in> set [0..<length ?hs]. orbit ?hs h)"
    by (elim exE conjE)
  have part: "\<exists>!i. i < length reps \<and> inNextLoop ?hs (reps ! i) h" if "h < length ?hs" for h
  proof -
    from that have "h \<in> set [0..<length ?hs]" by simp
    then have "h \<in> (\<Union>h \<in> set [0..<length ?hs]. orbit ?hs h)"
      using orbit_refl [of h ?hs] by (rule UN_I)
    then have "h \<in> (\<Union>r \<in> set reps. orbit ?hs r)"
      unfolding un by simp
    then obtain r where r: "r \<in> set reps" "h \<in> orbit ?hs r" by (rule UN_E)
    then obtain i where i: "i < length reps" "reps ! i = r"
      unfolding in_set_conv_nth by blast
    show ?thesis
    proof (rule ex1I [of _ i])
      have "closed ?hs r" using cl r(1) by (rule bspec)
      then have "inNextLoop ?hs r h" using r(2) by (simp add: inNextLoop_orbit)
      with i show "i < length reps \<and> inNextLoop ?hs (reps ! i) h" by simp
    next
      fix j assume j: "j < length reps \<and> inNextLoop ?hs (reps ! j) h"
      then have mem: "reps ! j \<in> set reps" by simp
      with cl have clj: "closed ?hs (reps ! j)" by (rule bspec)
      with j have "h \<in> orbit ?hs (reps ! j)" by (simp add: inNextLoop_orbit)
      with clj have "reps ! j \<in> orbit ?hs h" by (rule orbit_sym)
      with r(2) have in_r: "reps ! j \<in> orbit ?hs r" by (rule orbit_trans)
      have "reps ! j = r"
      proof (rule ccontr)
        assume "reps ! j \<noteq> r"
        then have "r \<noteq> reps ! j" by simp
        with ap r(1) mem have "reps ! j \<notin> orbit ?hs r" unfolding apart_def by blast
        with in_r show False by simp
      qed
      with i(2) have "reps ! j = reps ! i" by simp
      moreover have "distinct reps" using ap by (simp add: apart_def)
      ultimately show "j = i"
        using i(1) j by (simp add: nth_eq_iff_index_eq)
    qed
  qed
  have "loops this = Some (Inr reps)"
    unfolding loops_def by (rule run)
  with part show ?thesis by blast
qed

theorem loops_partition_witness:
  "loopClosure (halfedges (emptyStore\<lparr>halfedges := threeHalfedges\<rparr>)) \<and>
   loops (emptyStore\<lparr>halfedges := threeHalfedges\<rparr>) = Some (Inr [0, 2]) \<and>
   (\<exists>!i. i < length [0, 2 :: nat] \<and> inNextLoop threeHalfedges ([0, 2] ! i) 1)"
proof -
  have it: "iterNext threeHalfedges 2 h = Some h" if "h < 3" for h
  proof -
    from that have "h = 0 \<or> h = 1 \<or> h = 2" by auto
    then show ?thesis
      by (auto simp: numeral_2_eq_2 nextOf_def array_get_def threeHalfedges_def)
  qed
  have "closed threeHalfedges h" if "h < 3" for h
    unfolding closed_def using it [OF that] by (intro exI [of _ 2]) simp
  then have lc: "loopClosure (halfedges (emptyStore\<lparr>halfedges := threeHalfedges\<rparr>))"
    by (simp add: loopClosure_def threeHalfedges_def)
  have ev: "loops (emptyStore\<lparr>halfedges := threeHalfedges\<rparr>) = Some (Inr [0, 2])"
    by code_simp
  from loops_partition [OF lc] ev
  have "\<forall>h<length threeHalfedges. \<exists>!i. i < length [0, 2 :: nat] \<and>
      inNextLoop threeHalfedges ([0, 2] ! i) h"
    by simp
  moreover have "1 < length threeHalfedges"
    by (simp add: threeHalfedges_def)
  ultimately have "\<exists>!i. i < length [0, 2 :: nat] \<and> inNextLoop threeHalfedges ([0, 2] ! i) 1"
    by blast
  with lc ev show ?thesis by blast
qed

end
